theory Spec2Isabelle
  imports Main
begin

section \<open>Values of the key generator\<close>

text \<open>
  The parameter \<^verbatim>\<open>ipv6Subnet: number | false\<close> of \<^verbatim>\<open>ipKeyGenerator\<close> is either the
  constant \<^verbatim>\<open>false\<close> or a number. The specification types the subnet size as an integer
  or a sentinel, so the numbers of the model are the integers (fractional values, NaN and
  the infinities are not part of it).
\<close>

datatype subnet = SubnetFalse | SubnetNumber int

text \<open>
  Everything that the function can throw. Both come out of the address library:
  \<open>InvalidSubnetSize\<close> is the error of that name in section 7 of the specification,
  \<open>MalformedAddress\<close> stands for a text that the library cannot read as an address.
\<close>

datatype error = InvalidSubnetSize | MalformedAddress

text \<open>
  \<^verbatim>\<open>!ipv6Subnet\<close>: of the values of the type, \<^verbatim>\<open>false\<close> and the number \<^verbatim>\<open>0\<close> are the
  falsy ones.
\<close>

fun falsy :: "subnet \<Rightarrow> bool" where
  "falsy SubnetFalse = True"
| "falsy (SubnetNumber n) = (n = 0)"

subsection \<open>Numbers in template literals\<close>

definition digit_char :: "nat \<Rightarrow> char" where
  "digit_char d = ''0123456789'' ! d"

fun nat_to_string :: "nat \<Rightarrow> string" where
  "nat_to_string n =
     (if n < 10 then [digit_char n] else nat_to_string (n div 10) @ [digit_char (n mod 10)])"

declare nat_to_string.simps [simp del]

text \<open>
  The text that \<^verbatim>\<open>${ipv6Subnet}\<close> puts into a template literal: an integer in decimal
  digits with a minus sign in front of a negative one, and the word \<^verbatim>\<open>false\<close>.
  (JavaScript prints an integer this way up to a magnitude of \<open>10\<^sup>2\<^sup>1\<close>; from
  there on its text has an exponent, like \<^verbatim>\<open>1e+21\<close>, which is no subnet size for the
  address library either.)
\<close>

fun subnet_to_string :: "subnet \<Rightarrow> string" where
  "subnet_to_string SubnetFalse = ''false''"
| "subnet_to_string (SubnetNumber n) =
     (if n < 0 then CHR ''-'' # nat_to_string (nat (- n)) else nat_to_string (nat n))"

section \<open>The cache: a JavaScript Map\<close>

text \<open>
  \<^verbatim>\<open>const ipv6Cache = new Map<string, string>()\<close>. A Map iterates its keys in the order
  of their first insertion, and the eviction of the source depends on that order, so the
  model is an association list, oldest entry first. A Map holds each key once:
  \<open>Map_wf\<close>.
\<close>

type_synonym cache = "(string \<times> string) list"

definition Map_wf :: "cache \<Rightarrow> bool" where
  "Map_wf c = distinct (map fst c)"

definition Map_get :: "cache \<Rightarrow> string \<Rightarrow> string option" where
  "Map_get c k = map_of c k"

definition Map_size :: "cache \<Rightarrow> nat" where
  "Map_size c = length c"

text \<open>\<^verbatim>\<open>keys().next().value\<close>: the oldest key, \<^verbatim>\<open>undefined\<close> on an empty Map.\<close>

definition Map_first_key :: "cache \<Rightarrow> string option" where
  "Map_first_key c = (case c of [] \<Rightarrow> None | (k, v) # rest \<Rightarrow> Some k)"

definition Map_delete :: "string \<Rightarrow> cache \<Rightarrow> cache" where
  "Map_delete k c = filter (\<lambda>(k', v). k' \<noteq> k) c"

text \<open>
  \<^verbatim>\<open>set(k, v)\<close> overwrites the value of a key that is present, where it stands, and
  appends a new key at the end.
\<close>

fun Map_set :: "string \<Rightarrow> string \<Rightarrow> cache \<Rightarrow> cache" where
  "Map_set k v [] = [(k, v)]"
| "Map_set k v ((k', v') # c) = (if k' = k then (k, v) # c else (k', v') # Map_set k v c)"

definition MAX_CACHE_SIZE :: nat where
  "MAX_CACHE_SIZE = 10000"

section \<open>The imported address functions\<close>

text \<open>
  Modelled from the spec: the two imports that \<^verbatim>\<open>ipKeyGenerator\<close> calls and whose
  code is not part of the repository, \<^verbatim>\<open>isIPv6\<close> of \<^verbatim>\<open>node:net\<close> and the class
  \<^verbatim>\<open>Address6\<close> of the package \<^verbatim>\<open>ip-address\<close>. Every definition of this section
  belongs to their model. It follows what the specification says of them: "a syntactically
  valid IPv6 address", "compute the subnet's starting address, render it in canonical
  compressed textual form", and "a subnet size outside 1--128" as an error.
\<close>

subsection \<open>The textual form of an IPv6 address\<close>

text \<open>
  Modelled from the spec: the texts that are syntactically valid IPv6 addresses, read into
  the eight 16-bit groups of the address: groups of hexadecimal digits between colons, at
  most one \<^verbatim>\<open>::\<close> for a run of zero groups, a dotted quad in the place of the last two
  groups, and a zone after a percent sign.
\<close>

definition hex_val :: "char \<Rightarrow> int option" where
  "hex_val c =
     (if c \<in> set ''0123456789'' then Some (of_char c - 48)
      else if c \<in> set ''abcdef'' then Some (of_char c - 87)
      else if c \<in> set ''ABCDEF'' then Some (of_char c - 55)
      else None)"

definition is_digit :: "char \<Rightarrow> bool" where
  "is_digit c = (c \<in> set ''0123456789'')"

definition dec_val :: "string \<Rightarrow> nat" where
  "dec_val s = foldl (\<lambda>a c. 10 * a + (of_char c - 48)) 0 s"

text \<open>A group of an address: one to four hexadecimal digits, of either case.\<close>

definition parse_hex_group :: "string \<Rightarrow> int option" where
  "parse_hex_group s =
     (if 1 \<le> length s \<and> length s \<le> 4
      then map_option (foldl (\<lambda>a d. 16 * a + d) 0) (those (map hex_val s))
      else None)"

text \<open>A part of a dotted quad: a decimal number up to 255 with no leading zero.\<close>

definition parse_octet :: "string \<Rightarrow> nat option" where
  "parse_octet s =
     (if 1 \<le> length s \<and> length s \<le> 3 \<and> list_all is_digit s
         \<and> (length s = 1 \<or> hd s \<noteq> CHR ''0'') \<and> dec_val s \<le> 255
      then Some (dec_val s) else None)"

text \<open>The fields of a text between the occurrences of a separator; there is always one.\<close>

fun split_on :: "char \<Rightarrow> string \<Rightarrow> string list" where
  "split_on sep [] = [[]]"
| "split_on sep (c # cs) =
     (if c = sep then [] # split_on sep cs
      else (case split_on sep cs of [] \<Rightarrow> [[c]] | f # fs \<Rightarrow> (c # f) # fs))"

text \<open>A dotted quad at the end of an address stands for its last two groups.\<close>

definition parse_v4 :: "string \<Rightarrow> int list option" where
  "parse_v4 s =
     (case those (map parse_octet (split_on CHR ''.'' s)) of
        Some [a, b, c, d] \<Rightarrow> Some [256 * int a + int b, 256 * int c + int d]
      | _ \<Rightarrow> None)"

definition parse_last :: "string \<Rightarrow> int list option" where
  "parse_last f = (case parse_hex_group f of Some g \<Rightarrow> Some [g] | None \<Rightarrow> parse_v4 f)"

text \<open>Fields that are groups, the last of them a group or a dotted quad.\<close>

fun parse_fields :: "string list \<Rightarrow> int list option" where
  "parse_fields [] = Some []"
| "parse_fields [f] = parse_last f"
| "parse_fields (f # fs) =
     (case parse_hex_group f of
        None \<Rightarrow> None
      | Some g \<Rightarrow> map_option ((#) g) (parse_fields fs))"

text \<open>The text before and after the first \<^verbatim>\<open>::\<close>.\<close>

fun split_elision :: "string \<Rightarrow> (string \<times> string) option" where
  "split_elision (a # b # cs) =
     (if a = CHR '':'' \<and> b = CHR '':'' then Some ([], cs)
      else map_option (\<lambda>(l, r). (a # l, r)) (split_elision (b # cs)))"
| "split_elision cs = None"

text \<open>
  The eight groups of an address text without a zone. Written in full it has eight groups
  (a dotted quad at the end counting for two); with one \<^verbatim>\<open>::\<close> it has at most seven,
  and the \<^verbatim>\<open>::\<close> stands for the zero groups that are left out.
\<close>

definition parse_address :: "string \<Rightarrow> int list option" where
  "parse_address s =
     (case split_elision s of
        None \<Rightarrow>
          (case parse_fields (split_on CHR '':'' s) of
             None \<Rightarrow> None
           | Some gs \<Rightarrow> if length gs = 8 then Some gs else None)
      | Some (l, r) \<Rightarrow>
          (case (if l = [] then Some [] else those (map parse_hex_group (split_on CHR '':'' l))) of
             None \<Rightarrow> None
           | Some ls \<Rightarrow>
               (case (if r = [] then Some [] else parse_fields (split_on CHR '':'' r)) of
                  None \<Rightarrow> None
                | Some rs \<Rightarrow>
                    if length ls + length rs \<le> 7
                    then Some (ls @ replicate (8 - (length ls + length rs)) 0 @ rs)
                    else None)))"

definition zone_char :: "char \<Rightarrow> bool" where
  "zone_char c =
     (c \<in> set ''0123456789abcdefghijklmnopqrstuvwxyzABCDEFGHIJKLMNOPQRSTUVWXYZ-.:'')"

text \<open>
  An address text may end in a zone: a percent sign and at least one character out of
  letters, digits, \<^verbatim>\<open>-\<close>, \<^verbatim>\<open>.\<close> and \<^verbatim>\<open>:\<close>. The zone is no part of the address value.
\<close>

definition parseIPv6 :: "string \<Rightarrow> int list option" where
  "parseIPv6 s =
     (let a = takeWhile (\<lambda>c. c \<noteq> CHR ''%'') s;
          z = dropWhile (\<lambda>c. c \<noteq> CHR ''%'') s
      in if z = [] \<or> (tl z \<noteq> [] \<and> list_all zone_char (tl z)) then parse_address a else None)"

text \<open>
  Modelled from the spec: \<^verbatim>\<open>isIPv6\<close>, imported from \<^verbatim>\<open>node:net\<close>, "a syntactically
  valid IPv6 address".
\<close>

definition isIPv6 :: "string \<Rightarrow> bool" where
  "isIPv6 ip = (parseIPv6 ip \<noteq> None)"

subsection \<open>Address6\<close>

record address6 =
  groups :: "int list"
  subnetMask :: nat

definition parse_subnet_mask :: "string \<Rightarrow> nat option" where
  "parse_subnet_mask m =
     (if 1 \<le> length m \<and> length m \<le> 3 \<and> list_all is_digit m then Some (dec_val m) else None)"

text \<open>
  Modelled from the spec: the constructor \<^verbatim>\<open>new Address6(text)\<close> of the package
  \<^verbatim>\<open>ip-address\<close>. The text is an address, or an address, a slash and a subnet size. A
  subnet size that is not a number from 1 to 128 is the error \<open>InvalidSubnetSize\<close>, and
  it is found before the address is read. (Size 0 is never asked of the constructor by
  \<^verbatim>\<open>ipKeyGenerator\<close>, which returns before that.)
\<close>

definition Address6 :: "string \<Rightarrow> error + address6" where
  "Address6 s =
     (case dropWhile (\<lambda>c. c \<noteq> CHR ''/'') s of
        [] \<Rightarrow>
          (case parseIPv6 s of
             None \<Rightarrow> Inl MalformedAddress
           | Some gs \<Rightarrow> Inr \<lparr>groups = gs, subnetMask = 128\<rparr>)
      | slash # m \<Rightarrow>
          (case parse_subnet_mask m of
             None \<Rightarrow> Inl InvalidSubnetSize
           | Some n \<Rightarrow>
               if n < 1 \<or> 128 < n then Inl InvalidSubnetSize
               else (case parseIPv6 (takeWhile (\<lambda>c. c \<noteq> CHR ''/'') s) of
                       None \<Rightarrow> Inl MalformedAddress
                     | Some gs \<Rightarrow> Inr \<lparr>groups = gs, subnetMask = n\<rparr>)))"

definition address_value :: "int list \<Rightarrow> int" where
  "address_value gs = foldl (\<lambda>a g. 65536 * a + g) 0 gs"

definition value_groups :: "int \<Rightarrow> int list" where
  "value_groups v = map (\<lambda>i. (v div 65536 ^ (7 - i)) mod 65536) [0..<8]"

text \<open>
  Modelled from the spec: \<^verbatim>\<open>startAddress()\<close>, the first address of the subnet: the
  leading \<open>subnetMask\<close> bits of the 128 are kept and the others are zero.
\<close>

definition startAddress :: "address6 \<Rightarrow> address6" where
  "startAddress a =
     a\<lparr>groups := value_groups
         ((address_value (groups a) div 2 ^ (128 - subnetMask a)) * 2 ^ (128 - subnetMask a))\<rparr>"

definition hex_char :: "int \<Rightarrow> char" where
  "hex_char d = ''0123456789abcdef'' ! nat d"

function int_to_hex :: "int \<Rightarrow> string" where
  "int_to_hex n =
     (if n < 16 then [hex_char n] else int_to_hex (n div 16) @ [hex_char (n mod 16)])"
  by pat_completeness auto
termination
  by (relation "measure nat") auto

declare int_to_hex.simps [simp del]

fun join :: "string \<Rightarrow> string list \<Rightarrow> string" where
  "join sep [] = []"
| "join sep [x] = x"
| "join sep (x # y # zs) = x @ sep @ join sep (y # zs)"

text \<open>
  The runs of two or more zero groups, each as the index of its first and of its last
  group; \<open>i\<close> is the index of the next group and \<open>z\<close> the number of zero groups just
  before it.
\<close>

fun zero_runs :: "int list \<Rightarrow> nat \<Rightarrow> nat \<Rightarrow> (nat \<times> nat) list" where
  "zero_runs [] i z = (if 1 < z then [(i - z, i - 1)] else [])"
| "zero_runs (g # gs) i z =
     (if g = 0 then zero_runs gs (Suc i) (Suc z)
      else (if 1 < z then [(i - z, i - 1)] else []) @ zero_runs gs (Suc i) 0)"

text \<open>The longest run, the first of them when several are as long.\<close>

fun longest_run :: "(nat \<times> nat) list \<Rightarrow> (nat \<times> nat) option" where
  "longest_run [] = None"
| "longest_run ((b, e) # rs) =
     (case longest_run rs of
        None \<Rightarrow> Some (b, e)
      | Some (b', e') \<Rightarrow> if e - b < e' - b' then Some (b', e') else Some (b, e))"

text \<open>
  Modelled from the spec: \<^verbatim>\<open>correctForm()\<close>, the canonical compressed text of an
  address: groups in lower-case hexadecimal without leading zeros, separated by colons,
  and the longest run of two or more zero groups written as \<^verbatim>\<open>::\<close>.
\<close>

definition correctForm :: "address6 \<Rightarrow> string" where
  "correctForm a =
     (case longest_run (zero_runs (groups a) 0 0) of
        None \<Rightarrow> join '':'' (map int_to_hex (groups a))
      | Some (b, e) \<Rightarrow>
          join '':'' (map int_to_hex (take b (groups a))) @ ''::''
            @ join '':'' (map int_to_hex (drop (Suc e) (groups a))))"

section \<open>ipKeyGenerator\<close>

text \<open>The key under which a result is cached: \<^verbatim>\<open>`${ip}/${ipv6Subnet}`\<close>.\<close>

definition cacheKey :: "string \<Rightarrow> subnet \<Rightarrow> string" where
  "cacheKey ip ipv6Subnet = ip @ ''/'' @ subnet_to_string ipv6Subnet"

text \<open>
  The function reads and writes the module's cache, so the model takes the cache and
  returns it with the result. A throw of the address library leaves the function at the
  line that computes \<^verbatim>\<open>result\<close>, before the cache is written.
\<close>

definition ipKeyGenerator :: "string \<Rightarrow> subnet \<Rightarrow> cache \<Rightarrow> (error + string) \<times> cache" where
  "ipKeyGenerator ip ipv6Subnet ipv6Cache =
     (if falsy ipv6Subnet \<or> \<not> isIPv6 ip then (Inr ip, ipv6Cache)
      else
        case Map_get ipv6Cache (cacheKey ip ipv6Subnet) of
          Some cached \<Rightarrow> (Inr cached, ipv6Cache)
        | None \<Rightarrow>
            (case Address6 (cacheKey ip ipv6Subnet) of
               Inl e \<Rightarrow> (Inl e, ipv6Cache)
             | Inr address \<Rightarrow>
                 let result = correctForm (startAddress address) @ ''/''
                                @ subnet_to_string ipv6Subnet;
                     evicted =
                       (if MAX_CACHE_SIZE \<le> Map_size ipv6Cache
                        then (case Map_first_key ipv6Cache of
                                Some firstKey \<Rightarrow> Map_delete firstKey ipv6Cache
                              | None \<Rightarrow> ipv6Cache)
                        else ipv6Cache)
                 in (Inr result, Map_set (cacheKey ip ipv6Subnet) result evicted)))"

text \<open>The parameter has the default value 56: a call may leave the argument out.\<close>

definition ipKeyGenerator_default ::
  "string \<Rightarrow> subnet option \<Rightarrow> cache \<Rightarrow> (error + string) \<times> cache" where
  "ipKeyGenerator_default ip arg ipv6Cache =
     ipKeyGenerator ip (case arg of None \<Rightarrow> SubnetNumber 56 | Some s \<Rightarrow> s) ipv6Cache"

subsection \<open>Sequences of calls\<close>

text \<open>
  The cache is private to the module: it starts empty and only \<^verbatim>\<open>ipKeyGenerator\<close>
  changes it. These are the states that it can be in.
\<close>

inductive reachable :: "cache \<Rightarrow> bool" where
  initial: "reachable []"
| call: "reachable c \<Longrightarrow> reachable (snd (ipKeyGenerator ip s c))"

fun run_calls :: "(string \<times> subnet) list \<Rightarrow> cache \<Rightarrow> cache" where
  "run_calls [] c = c"
| "run_calls ((ip, s) # calls) c = run_calls calls (snd (ipKeyGenerator ip s c))"

text \<open>A call that asks for a subnet key: a valid address and a size from 1 to 128.\<close>

fun collapsing_call :: "string \<times> subnet \<Rightarrow> bool" where
  "collapsing_call (ip, SubnetNumber n) = (isIPv6 ip \<and> 1 \<le> n \<and> n \<le> 128)"
| "collapsing_call (ip, SubnetFalse) = False"

text \<open>
  The function applied to its own result, \<^verbatim>\<open>ipKeyGenerator(ipKeyGenerator(ip, s), s)\<close>:
  a throw of the inner call is the throw of the whole expression.
\<close>

definition ipKeyGenerator_twice :: "string \<Rightarrow> subnet \<Rightarrow> cache \<Rightarrow> (error + string) \<times> cache" where
  "ipKeyGenerator_twice ip s c =
     (case ipKeyGenerator ip s c of
        (Inl e, c') \<Rightarrow> (Inl e, c')
      | (Inr key, c') \<Rightarrow> ipKeyGenerator key s c')"

subsection \<open>The contract of the specification\<close>

text \<open>
  \<open>normalize\<close> as section 4.2 of the specification words it, without a cache: the input
  comes back unchanged for the sentinel and for an input that is not a valid IPv6 address;
  otherwise the subnet size has to be from 1 to 128, and the result is the starting
  address of the subnet in canonical compressed form with \<^verbatim>\<open>/subnetSize\<close> appended.
\<close>

definition normalize_spec :: "string \<Rightarrow> subnet \<Rightarrow> error + string" where
  "normalize_spec ip subnetSize =
     (case subnetSize of
        SubnetFalse \<Rightarrow> Inr ip
      | SubnetNumber n \<Rightarrow>
          (case parseIPv6 ip of
             None \<Rightarrow> Inr ip
           | Some gs \<Rightarrow>
               if n < 1 \<or> 128 < n then Inl InvalidSubnetSize
               else Inr (correctForm (startAddress \<lparr>groups = gs, subnetMask = nat n\<rparr>)
                           @ ''/'' @ subnet_to_string subnetSize)))"

subsection \<open>A full cache\<close>

text \<open>
  A cache of \<open>n\<close> entries with the keys \<^verbatim>\<open>x\<close>, \<^verbatim>\<open>xx\<close>, \<^verbatim>\<open>xxx\<close> and so on, the
  shortest the oldest: a Map filled to \<open>MAX_CACHE_SIZE\<close> to evaluate the eviction on.
\<close>

definition filled_cache :: "nat \<Rightarrow> cache" where
  "filled_cache n = map (\<lambda>i. (replicate (Suc i) CHR ''x'', ''y'')) [0..<n]"

section \<open>The counter store\<close>

text \<open>
  Modelled from the spec: the store of hit counts (\<^verbatim>\<open>MemoryStore\<close>). The benchmark of
  the repository calls it, but its code is not among the sources, so every definition of
  this section follows sections 3 and 4.1 and the error taxonomy of section 7 of the
  specification. The clock is an argument of the operations.
\<close>

datatype store_error = NotInitialized

record hit_record =
  count :: nat
  resetTime :: int

text \<open>
  Modelled from the spec: the state of the Counter Store, whose code is missing: the
  window length, absent before \<open>init\<close>, and one hit record per client key.
\<close>

record counter_store =
  windowDurationMs :: "int option"
  records :: "string \<rightharpoonup> hit_record"

text \<open>
  Modelled from the spec: "a Hit Record with \<open>resetTime \<le> t\<close> is logically expired";
  a key has a live record at \<open>t\<close> when it has a record that is not.
\<close>

definition live_record :: "counter_store \<Rightarrow> string \<Rightarrow> int \<Rightarrow> hit_record option" where
  "live_record st key t =
     (case records st key of
        None \<Rightarrow> None
      | Some r \<Rightarrow> if resetTime r \<le> t then None else Some r)"

text \<open>Modelled from the spec: \<open>init(windowDurationMs)\<close> of the Counter Store.\<close>

definition init :: "int \<Rightarrow> counter_store \<Rightarrow> counter_store" where
  "init w st = st\<lparr>windowDurationMs := Some w\<rparr>"

text \<open>
  Modelled from the spec: \<open>increment(key)\<close> of the Counter Store, whose code is missing:
  "if no live record exists for key (absent, or present but expired), create a fresh
  record with count = 1 and resetTime = now + windowDurationMs. If a live record exists,
  increment its count by 1 and leave its resetTime unchanged. Returns the resulting count
  and resetTime." Before \<open>init\<close> it is the error \<open>NotInitialized\<close>.
\<close>

definition increment ::
  "string \<Rightarrow> int \<Rightarrow> counter_store \<Rightarrow> store_error + ((nat \<times> int) \<times> counter_store)" where
  "increment key now st =
     (case windowDurationMs st of
        None \<Rightarrow> Inl NotInitialized
      | Some w \<Rightarrow>
          let r = (case live_record st key now of
                     None \<Rightarrow> \<lparr>count = 1, resetTime = now + w\<rparr>
                   | Some r \<Rightarrow> r\<lparr>count := count r + 1\<rparr>)
          in Inr ((count r, resetTime r), st\<lparr>records := (records st)(key \<mapsto> r)\<rparr>))"

text \<open>Consecutive calls of \<open>increment\<close> for one key, at the given times.\<close>

fun increments ::
  "string \<Rightarrow> int list \<Rightarrow> counter_store \<Rightarrow> store_error + ((nat \<times> int) list \<times> counter_store)" where
  "increments key [] st = Inr ([], st)"
| "increments key (t # ts) st =
     (case increment key t st of
        Inl e \<Rightarrow> Inl e
      | Inr (r, st') \<Rightarrow>
          (case increments key ts st' of
             Inl e \<Rightarrow> Inl e
           | Inr (rs, st'') \<Rightarrow> Inr (r # rs, st'')))"

section \<open>Texts without a slash\<close>

lemma digit_char_in: "d < 10 \<Longrightarrow> digit_char d \<in> set ''0123456789''"
  unfolding digit_char_def by (rule nth_mem) simp

lemma nat_to_string_digits: "set (nat_to_string n) \<subseteq> set ''0123456789''"
proof (induction n rule: nat_to_string.induct)
  case (1 n)
  show ?case
  proof (cases "n < 10")
    case True
    then show ?thesis using digit_char_in [of n] by (subst nat_to_string.simps) simp
  next
    case False
    have "n mod 10 < 10" by simp
    then have "digit_char (n mod 10) \<in> set ''0123456789''" by (rule digit_char_in)
    with False 1 show ?thesis by (subst nat_to_string.simps) simp
  qed
qed

lemma subnet_to_string_no_slash: "CHR ''/'' \<notin> set (subnet_to_string s)"
proof (cases s)
  case SubnetFalse
  then show ?thesis by simp
next
  case (SubnetNumber n)
  have "CHR ''/'' \<notin> set (nat_to_string k)" for k
    using nat_to_string_digits [of k] by auto
  with SubnetNumber show ?thesis by simp
qed

section \<open>The Map operations\<close>

lemma Map_set_absent: "Map_get c k = None \<Longrightarrow> Map_set k v c = c @ [(k, v)]"
  by (induction c) (auto simp: Map_get_def split: if_splits)

lemma Map_delete_first: "Map_wf ((k, v) # c) \<Longrightarrow> Map_delete k ((k, v) # c) = c"
proof -
  assume "Map_wf ((k, v) # c)"
  then have "k \<notin> fst ` set c" by (simp add: Map_wf_def)
  then have "filter (\<lambda>(k', v). k' \<noteq> k) c = c"
    by (intro filter_True) force
  then show ?thesis by (simp add: Map_delete_def)
qed

lemma Map_get_None_iff: "Map_get c k = None \<longleftrightarrow> k \<notin> fst ` set c"
  by (simp add: Map_get_def map_of_eq_None_iff)

lemma Map_wf_append_fresh: "Map_wf c \<Longrightarrow> Map_get c k = None \<Longrightarrow> Map_wf (c @ [(k, v)])"
  by (auto simp: Map_wf_def Map_get_None_iff)

lemma Map_wf_tl: "Map_wf c \<Longrightarrow> Map_wf (tl c)"
  by (cases c) (auto simp: Map_wf_def)

lemma Map_get_tl_None: "Map_get c k = None \<Longrightarrow> Map_get (tl c) k = None"
  by (cases c) (auto simp: Map_get_None_iff)

lemma MAX_CACHE_SIZE_pos: "0 < MAX_CACHE_SIZE"
  by (simp add: MAX_CACHE_SIZE_def)

section \<open>The cases of a call\<close>

lemma ipKeyGenerator_hit:
  "\<not> falsy s \<Longrightarrow> isIPv6 ip \<Longrightarrow> Map_get c (cacheKey ip s) = Some v
   \<Longrightarrow> ipKeyGenerator ip s c = (Inr v, c)"
  by (simp add: ipKeyGenerator_def)

lemma ipKeyGenerator_error:
  "\<not> falsy s \<Longrightarrow> isIPv6 ip \<Longrightarrow> Map_get c (cacheKey ip s) = None
   \<Longrightarrow> Address6 (cacheKey ip s) = Inl e
   \<Longrightarrow> ipKeyGenerator ip s c = (Inl e, c)"
  by (simp add: ipKeyGenerator_def)

text \<open>The Map after the eviction of a miss, for a Map without repeated keys.\<close>

lemma evicted_eq:
  assumes "Map_wf c"
  shows "(if MAX_CACHE_SIZE \<le> Map_size c
          then (case Map_first_key c of Some firstKey \<Rightarrow> Map_delete firstKey c | None \<Rightarrow> c)
          else c)
         = (if MAX_CACHE_SIZE \<le> length c then tl c else c)"
proof (cases c)
  case Nil
  then show ?thesis by (simp add: Map_size_def Map_first_key_def)
next
  case (Cons e rest)
  obtain k v where e: "e = (k, v)" by (cases e)
  from assms Cons e have "Map_delete k ((k, v) # rest) = rest"
    by (intro Map_delete_first) simp
  with Cons e show ?thesis by (simp add: Map_size_def Map_first_key_def)
qed

lemma ipKeyGenerator_miss:
  assumes "\<not> falsy s" and "isIPv6 ip" and "Map_get c (cacheKey ip s) = None"
    and "Address6 (cacheKey ip s) = Inr a" and "Map_wf c"
  shows "ipKeyGenerator ip s c =
           (Inr (correctForm (startAddress a) @ ''/'' @ subnet_to_string s),
            (if MAX_CACHE_SIZE \<le> length c then tl c else c)
              @ [(cacheKey ip s, correctForm (startAddress a) @ ''/'' @ subnet_to_string s)])"
proof -
  let ?r = "correctForm (startAddress a) @ ''/'' @ subnet_to_string s"
  let ?e = "if MAX_CACHE_SIZE \<le> length c then tl c else c"
  have "Map_get ?e (cacheKey ip s) = None"
    using assms(3) by (simp add: Map_get_tl_None)
  then have "Map_set (cacheKey ip s) ?r ?e = ?e @ [(cacheKey ip s, ?r)]"
    by (rule Map_set_absent)
  moreover have "ipKeyGenerator ip s c = (Inr ?r, Map_set (cacheKey ip s) ?r ?e)"
    using assms(1-4) evicted_eq [OF assms(5)] by (simp add: ipKeyGenerator_def Let_def)
  ultimately show ?thesis by simp
qed

text \<open>The result of a call does not depend on the Map when the key is not in it.\<close>

lemma ipKeyGenerator_fst_miss:
  "Map_get c (cacheKey ip s) = None \<Longrightarrow> fst (ipKeyGenerator ip s c) = fst (ipKeyGenerator ip s [])"
  by (simp add: ipKeyGenerator_def Map_get_def Let_def split: sum.splits)

section \<open>Cache keys\<close>

lemma slash_split_unique:
  assumes "a @ CHR ''/'' # x = b @ CHR ''/'' # y"
    and "CHR ''/'' \<notin> set x" and "CHR ''/'' \<notin> set y"
  shows "a = b \<and> x = y"
proof -
  have tw': "takeWhile (\<lambda>c. c \<noteq> CHR ''/'') (u @ CHR ''/'' # w) = u"
    if "CHR ''/'' \<notin> set u" for u w :: string
    using that by (induction u) auto
  have tw: "takeWhile (\<lambda>c. c \<noteq> CHR ''/'') (rev u @ CHR ''/'' # rev w) = rev u"
    if "CHR ''/'' \<notin> set u" for u w
    using that tw' [of "rev u" "rev w"] by simp
  have "rev (a @ CHR ''/'' # x) = rev (b @ CHR ''/'' # y)" using assms(1) by simp
  then have eq: "rev x @ CHR ''/'' # rev a = rev y @ CHR ''/'' # rev b" by simp
  have "rev x = rev y"
    using tw [OF assms(2), of a] tw [OF assms(3), of b] eq by simp
  then have "x = y" by simp
  with assms(1) show ?thesis by simp
qed

lemma cacheKey_inject:
  assumes "cacheKey ip s = cacheKey ip' s'"
  shows "ip = ip' \<and> subnet_to_string s = subnet_to_string s'"
  using slash_split_unique [of ip "subnet_to_string s" ip' "subnet_to_string s'"]
    assms subnet_to_string_no_slash
  by (simp add: cacheKey_def)

section \<open>Valid addresses have no slash\<close>

lemma those_map_Some:
  "those (map f xs) = Some ys \<Longrightarrow> x \<in> set xs \<Longrightarrow> \<exists>y. f x = Some y"
  by (induction xs arbitrary: ys) (auto split: option.splits)

lemma hex_val_no_slash: "hex_val c = Some v \<Longrightarrow> c \<noteq> CHR ''/''"
  by (auto simp: hex_val_def split: if_splits)

lemma parse_hex_group_no_slash:
  assumes "parse_hex_group f = Some g"
  shows "CHR ''/'' \<notin> set f"
proof
  assume "CHR ''/'' \<in> set f"
  moreover from assms obtain ds where "those (map hex_val f) = Some ds"
    by (auto simp: parse_hex_group_def split: if_splits)
  ultimately obtain v where "hex_val CHR ''/'' = Some v"
    using those_map_Some [of hex_val f ds "CHR ''/''"] by auto
  then show False using hex_val_no_slash [of "CHR ''/''" v] by simp
qed

lemma parse_octet_no_slash:
  assumes "parse_octet f = Some v"
  shows "CHR ''/'' \<notin> set f"
proof -
  from assms have "list_all is_digit f"
    by (simp add: parse_octet_def split: if_splits)
  then show ?thesis by (auto simp: list_all_iff is_digit_def)
qed

lemma split_on_nonempty: "split_on sep s \<noteq> []"
  by (induction s) (auto split: list.splits)

lemma split_on_covers:
  "c \<in> set s \<Longrightarrow> c \<noteq> sep \<Longrightarrow> \<exists>f \<in> set (split_on sep s). c \<in> set f"
proof (induction s)
  case Nil
  then show ?case by simp
next
  case (Cons d s)
  show ?case
  proof (cases "split_on sep s")
    case Nil
    then show ?thesis using split_on_nonempty by blast
  next
    case split: (Cons f fs)
    show ?thesis
    proof (cases "c = d")
      case True
      with Cons.prems split show ?thesis by simp
    next
      case False
      with Cons.prems have "c \<in> set s" by simp
      with Cons.IH Cons.prems obtain f' where "f' \<in> set (split_on sep s)" "c \<in> set f'"
        by blast
      with split show ?thesis by (cases "d = sep") auto
    qed
  qed
qed

lemma colon_fields_no_slash:
  assumes "\<And>f. f \<in> set (split_on CHR '':'' s) \<Longrightarrow> CHR ''/'' \<notin> set f"
  shows "CHR ''/'' \<notin> set s"
  using assms split_on_covers [of "CHR ''/''" s "CHR '':''"] by auto

lemma dot_fields_no_slash:
  assumes "\<And>f. f \<in> set (split_on CHR ''.'' s) \<Longrightarrow> CHR ''/'' \<notin> set f"
  shows "CHR ''/'' \<notin> set s"
  using assms split_on_covers [of "CHR ''/''" s "CHR ''.''"] by auto

lemma parse_v4_no_slash:
  assumes "parse_v4 f = Some gs"
  shows "CHR ''/'' \<notin> set f"
proof (rule dot_fields_no_slash)
  fix p assume p: "p \<in> set (split_on CHR ''.'' f)"
  from assms obtain os where "those (map parse_octet (split_on CHR ''.'' f)) = Some os"
    by (auto simp: parse_v4_def split: option.splits)
  with p obtain v where "parse_octet p = Some v"
    using those_map_Some [of parse_octet "split_on CHR ''.'' f" os p] by auto
  then show "CHR ''/'' \<notin> set p" by (rule parse_octet_no_slash)
qed

lemma parse_last_no_slash: "parse_last f = Some gs \<Longrightarrow> CHR ''/'' \<notin> set f"
  by (auto simp: parse_last_def split: option.splits
      dest: parse_hex_group_no_slash parse_v4_no_slash)

lemma parse_fields_no_slash:
  "parse_fields fs = Some gs \<Longrightarrow> f \<in> set fs \<Longrightarrow> CHR ''/'' \<notin> set f"
proof (induction fs arbitrary: gs rule: parse_fields.induct)
  case 1
  then show ?case by simp
next
  case (2 f')
  then show ?case using parse_last_no_slash by auto
next
  case (3 f' f'' fs)
  from "3.prems"(1) obtain g gs' where g: "parse_hex_group f' = Some g"
    and rest: "parse_fields (f'' # fs) = Some gs'"
    by (auto split: option.splits)
  show ?case
  proof (cases "f = f'")
    case True
    with g show ?thesis using parse_hex_group_no_slash by blast
  next
    case False
    with "3.prems"(2) have "f \<in> set (f'' # fs)" by simp
    with "3.IH" g rest show ?thesis by blast
  qed
qed

lemma hex_groups_no_slash:
  assumes "those (map parse_hex_group fs) = Some gs" and "f \<in> set fs"
  shows "CHR ''/'' \<notin> set f"
proof -
  from assms obtain g where "parse_hex_group f = Some g"
    using those_map_Some [of parse_hex_group fs gs f] by auto
  then show ?thesis by (rule parse_hex_group_no_slash)
qed

lemma split_elision_eq: "split_elision s = Some (l, r) \<Longrightarrow> s = l @ ''::'' @ r"
  by (induction s arbitrary: l rule: split_elision.induct) (auto split: if_splits)

lemma parse_address_no_slash:
  assumes "parse_address s = Some gs"
  shows "CHR ''/'' \<notin> set s"
proof (cases "split_elision s")
  case None
  with assms obtain gs' where "parse_fields (split_on CHR '':'' s) = Some gs'"
    by (auto simp: parse_address_def split: option.splits)
  then have "\<And>f. f \<in> set (split_on CHR '':'' s) \<Longrightarrow> CHR ''/'' \<notin> set f"
    using parse_fields_no_slash by blast
  then show ?thesis by (rule colon_fields_no_slash)
next
  case (Some lr)
  obtain l r where lr: "lr = (l, r)" by (cases lr)
  with Some have s: "s = l @ ''::'' @ r" using split_elision_eq by blast
  have "CHR ''/'' \<notin> set l"
  proof (cases "l = []")
    case True
    then show ?thesis by simp
  next
    case False
    with assms Some lr obtain ls where "those (map parse_hex_group (split_on CHR '':'' l)) = Some ls"
      by (auto simp: parse_address_def split: option.splits if_splits)
    then have "\<And>f. f \<in> set (split_on CHR '':'' l) \<Longrightarrow> CHR ''/'' \<notin> set f"
      using hex_groups_no_slash by blast
    then show ?thesis by (rule colon_fields_no_slash)
  qed
  moreover have "CHR ''/'' \<notin> set r"
  proof (cases "r = []")
    case True
    then show ?thesis by simp
  next
    case False
    with assms Some lr obtain rs where "parse_fields (split_on CHR '':'' r) = Some rs"
      by (auto simp: parse_address_def split: option.splits if_splits)
    then have "\<And>f. f \<in> set (split_on CHR '':'' r) \<Longrightarrow> CHR ''/'' \<notin> set f"
      using parse_fields_no_slash by blast
    then show ?thesis by (rule colon_fields_no_slash)
  qed
  ultimately show ?thesis using s by simp
qed

lemma zone_char_no_slash: "zone_char c \<Longrightarrow> c \<noteq> CHR ''/''"
  by (auto simp: zone_char_def)

lemma isIPv6_no_slash:
  assumes "isIPv6 ip"
  shows "CHR ''/'' \<notin> set ip"
proof -
  define a where "a = takeWhile (\<lambda>c. c \<noteq> CHR ''%'') ip"
  define z where "z = dropWhile (\<lambda>c. c \<noteq> CHR ''%'') ip"
  from assms obtain gs where gs: "parseIPv6 ip = Some gs" by (auto simp: isIPv6_def)
  then have zone: "z = [] \<or> (tl z \<noteq> [] \<and> list_all zone_char (tl z))"
    and addr: "parse_address a = Some gs"
    unfolding a_def z_def by (auto simp: parseIPv6_def Let_def split: if_splits)
  have "CHR ''/'' \<notin> set a" using addr by (rule parse_address_no_slash)
  moreover have "CHR ''/'' \<notin> set z"
  proof (cases z)
    case Nil
    then show ?thesis by simp
  next
    case (Cons p rest)
    then have "p = CHR ''%''"
      using hd_dropWhile [of "\<lambda>c. c \<noteq> CHR ''%''" ip] unfolding z_def by auto
    moreover from zone Cons have "list_all zone_char rest" by simp
    then have "CHR ''/'' \<notin> set rest" using zone_char_no_slash by (auto simp: list_all_iff)
    ultimately show ?thesis using Cons by simp
  qed
  moreover have "ip = a @ z"
    unfolding a_def z_def by simp
  ultimately show ?thesis by simp
qed

section \<open>Decimal numbers\<close>

lemma digit_cases:
  assumes "d < (10::nat)"
  shows "d = 0 \<or> d = 1 \<or> d = 2 \<or> d = 3 \<or> d = 4 \<or> d = 5 \<or> d = 6 \<or> d = 7 \<or> d = 8 \<or> d = 9"
  using assms by arith

lemma of_char_digit_char: "d < 10 \<Longrightarrow> (of_char (digit_char d) :: nat) = 48 + d"
  using digit_cases [of d] by (auto simp: digit_char_def)

lemma is_digit_digit_char: "d < 10 \<Longrightarrow> is_digit (digit_char d)"
  using digit_char_in [of d] by (simp add: is_digit_def)

lemma dec_val_snoc: "dec_val (s @ [c]) = 10 * dec_val s + (of_char c - 48)"
  by (simp add: dec_val_def)

lemma dec_val_nat_to_string: "dec_val (nat_to_string n) = n"
proof (induction n rule: nat_to_string.induct)
  case (1 n)
  show ?case
  proof (cases "n < 10")
    case True
    then show ?thesis
      by (subst nat_to_string.simps) (simp add: dec_val_def of_char_digit_char)
  next
    case False
    with 1 have "dec_val (nat_to_string (n div 10)) = n div 10" by simp
    with False show ?thesis
      by (subst nat_to_string.simps) (simp add: dec_val_snoc of_char_digit_char)
  qed
qed

lemma nat_to_string_all_digits: "list_all is_digit (nat_to_string n)"
proof (induction n rule: nat_to_string.induct)
  case (1 n)
  show ?case
  proof (cases "n < 10")
    case True
    then show ?thesis by (subst nat_to_string.simps) (simp add: is_digit_digit_char)
  next
    case False
    with 1 show ?thesis by (subst nat_to_string.simps) (simp add: is_digit_digit_char)
  qed
qed

lemma length_nat_to_string_small: "n < 10 \<Longrightarrow> length (nat_to_string n) = 1"
  by (subst nat_to_string.simps) simp

lemma length_nat_to_string_step:
  "10 \<le> n \<Longrightarrow> length (nat_to_string n) = Suc (length (nat_to_string (n div 10)))"
  by (subst nat_to_string.simps) simp

lemma length_nat_to_string_pos: "1 \<le> length (nat_to_string n)"
  by (cases "n < 10") (simp_all add: length_nat_to_string_small length_nat_to_string_step)

lemma length_nat_to_string_le3: "length (nat_to_string n) \<le> 3 \<longleftrightarrow> n < 1000"
proof (cases "n < 10")
  case True
  then show ?thesis by (simp add: length_nat_to_string_small)
next
  case n10: False
  show ?thesis
  proof (cases "n < 100")
    case True
    with n10 have "n div 10 < 10" by simp
    with n10 True show ?thesis
      by (simp add: length_nat_to_string_step length_nat_to_string_small)
  next
    case n100: False
    then have d10: "10 \<le> n div 10" by simp
    show ?thesis
    proof (cases "n < 1000")
      case True
      then have "n div 10 div 10 < 10" by simp
      with n10 d10 True show ?thesis
        by (simp add: length_nat_to_string_step length_nat_to_string_small)
    next
      case False
      then have "10 \<le> n div 10 div 10" by simp
      with n10 d10 have "length (nat_to_string n) =
          Suc (Suc (Suc (length (nat_to_string (n div 10 div 10 div 10)))))"
        by (simp add: length_nat_to_string_step)
      with False length_nat_to_string_pos [of "n div 10 div 10 div 10"] show ?thesis
        by linarith
    qed
  qed
qed

lemma parse_subnet_mask_nat_to_string:
  "parse_subnet_mask (nat_to_string n) = (if n < 1000 then Some n else None)"
  using length_nat_to_string_pos [of n] length_nat_to_string_le3 [of n]
  by (simp add: parse_subnet_mask_def nat_to_string_all_digits dec_val_nat_to_string)

lemma parse_subnet_mask_minus: "parse_subnet_mask (CHR ''-'' # s) = None"
  by (simp add: parse_subnet_mask_def is_digit_def)

text \<open>What the constructor makes of a cache key.\<close>

lemma Address6_cacheKey:
  assumes "parseIPv6 ip = Some gs"
  shows "Address6 (cacheKey ip (SubnetNumber n)) =
           (if 1 \<le> n \<and> n \<le> 128 then Inr \<lparr>groups = gs, subnetMask = nat n\<rparr>
            else Inl InvalidSubnetSize)"
proof -
  define m where "m = subnet_to_string (SubnetNumber n)"
  from assms have "isIPv6 ip" by (simp add: isIPv6_def)
  then have ns: "CHR ''/'' \<notin> set ip" by (rule isIPv6_no_slash)
  then have d: "dropWhile (\<lambda>c. c \<noteq> CHR ''/'') (ip @ CHR ''/'' # m) = CHR ''/'' # m"
    by (induction ip) auto
  from ns have t: "takeWhile (\<lambda>c. c \<noteq> CHR ''/'') (ip @ CHR ''/'' # m) = ip"
    by (induction ip) auto
  have pm: "parse_subnet_mask m = (if 0 \<le> n \<and> n < 1000 then Some (nat n) else None)"
    unfolding m_def by (auto simp: parse_subnet_mask_nat_to_string parse_subnet_mask_minus)
  have "cacheKey ip (SubnetNumber n) = ip @ CHR ''/'' # m"
    by (simp add: cacheKey_def m_def)
  then have "Address6 (cacheKey ip (SubnetNumber n)) =
      (case parse_subnet_mask m of
         None \<Rightarrow> Inl InvalidSubnetSize
       | Some k \<Rightarrow>
           if k < 1 \<or> 128 < k then Inl InvalidSubnetSize
           else (case parseIPv6 ip of
                   None \<Rightarrow> Inl MalformedAddress
                 | Some gs \<Rightarrow> Inr \<lparr>groups = gs, subnetMask = k\<rparr>))"
    by (simp add: Address6_def d t cong: option.case_cong if_cong)
  with assms pm show ?thesis by auto
qed

section \<open>The states of the cache\<close>

text \<open>A call with an empty cache computes its result: there is nothing to hit.\<close>

lemma ipKeyGenerator_empty:
  "\<not> falsy s \<Longrightarrow> isIPv6 ip \<Longrightarrow>
   fst (ipKeyGenerator ip s []) =
     (case Address6 (cacheKey ip s) of
        Inl e \<Rightarrow> Inl e
      | Inr a \<Rightarrow> Inr (correctForm (startAddress a) @ ''/'' @ subnet_to_string s))"
  by (simp add: ipKeyGenerator_def Map_get_def Let_def split: sum.splits)

lemma ipKeyGenerator_empty_cong:
  assumes "cacheKey ip s = cacheKey ip' s'"
    and "\<not> falsy s" and "isIPv6 ip" and "\<not> falsy s'"
  shows "fst (ipKeyGenerator ip s []) = fst (ipKeyGenerator ip' s' [])"
proof -
  from assms(1) have "ip = ip'" and "subnet_to_string s = subnet_to_string s'"
    using cacheKey_inject by blast+
  with assms show ?thesis by (simp add: ipKeyGenerator_empty cong: sum.case_cong)
qed

text \<open>
  A call leaves the cache as it is, or it is a miss whose result is computed and appended,
  after the oldest entry is dropped from a cache that is full.
\<close>

lemma ipKeyGenerator_cases:
  assumes "Map_wf c"
  obtains (same) "snd (ipKeyGenerator ip s c) = c"
  | (inserted) v where "\<not> falsy s" and "isIPv6 ip" and "Map_get c (cacheKey ip s) = None"
      and "fst (ipKeyGenerator ip s []) = Inr v"
      and "ipKeyGenerator ip s c =
             (Inr v, (if MAX_CACHE_SIZE \<le> length c then tl c else c) @ [(cacheKey ip s, v)])"
proof (cases "falsy s \<or> \<not> isIPv6 ip")
  case True
  then have "snd (ipKeyGenerator ip s c) = c" by (auto simp: ipKeyGenerator_def)
  then show ?thesis by (rule same)
next
  case False
  then have s: "\<not> falsy s" and ip: "isIPv6 ip" by simp_all
  show ?thesis
  proof (cases "Map_get c (cacheKey ip s)")
    case (Some v)
    with s ip have "snd (ipKeyGenerator ip s c) = c" by (simp add: ipKeyGenerator_hit)
    then show ?thesis by (rule same)
  next
    case None
    show ?thesis
    proof (cases "Address6 (cacheKey ip s)")
      case (Inl e)
      with s ip None have "snd (ipKeyGenerator ip s c) = c" by (simp add: ipKeyGenerator_error)
      then show ?thesis by (rule same)
    next
      case (Inr a)
      let ?v = "correctForm (startAddress a) @ ''/'' @ subnet_to_string s"
      from s ip Inr have "fst (ipKeyGenerator ip s []) = Inr ?v"
        by (simp add: ipKeyGenerator_empty)
      moreover have "ipKeyGenerator ip s c =
          (Inr ?v, (if MAX_CACHE_SIZE \<le> length c then tl c else c) @ [(cacheKey ip s, ?v)])"
        using s ip None Inr assms by (rule ipKeyGenerator_miss)
      ultimately show ?thesis using s ip None by (intro inserted [of ?v])
    qed
  qed
qed

lemma Map_get_tl_Some:
  assumes "Map_wf c" and "Map_get (tl c) k = Some v"
  shows "Map_get c k = Some v"
proof (cases c)
  case Nil
  with assms(2) show ?thesis by simp
next
  case (Cons e rest)
  obtain k0 v0 where e: "e = (k0, v0)" by (cases e)
  from assms Cons e have fresh: "k0 \<notin> fst ` set rest" and v: "map_of rest k = Some v"
    by (simp_all add: Map_wf_def Map_get_def)
  from v have "(k, v) \<in> set rest" by (rule map_of_SomeD)
  then have "k \<in> fst ` set rest" by force
  with fresh have "k \<noteq> k0" by blast
  with Cons e v show ?thesis by (simp add: Map_get_def)
qed

lemma reachable_wf: "reachable c \<Longrightarrow> Map_wf c"
proof (induction rule: reachable.induct)
  case initial
  show ?case by (simp add: Map_wf_def)
next
  case (call c ip s)
  from call.IH show ?case
  proof (cases rule: ipKeyGenerator_cases [of c ip s])
    case same
    with call.IH show ?thesis by simp
  next
    case (inserted v)
    let ?e = "if MAX_CACHE_SIZE \<le> length c then tl c else c"
    have "Map_wf ?e" using call.IH by (simp add: Map_wf_tl)
    moreover have "Map_get ?e (cacheKey ip s) = None"
      using inserted(3) by (simp add: Map_get_tl_None)
    ultimately have "Map_wf (?e @ [(cacheKey ip s, v)])" by (rule Map_wf_append_fresh)
    with inserted(5) show ?thesis by simp
  qed
qed

lemma step_size:
  assumes "Map_wf c" and "length c \<le> MAX_CACHE_SIZE"
  shows "length (snd (ipKeyGenerator ip s c)) \<le> MAX_CACHE_SIZE"
  using assms(1)
proof (cases rule: ipKeyGenerator_cases [of c ip s])
  case same
  with assms(2) show ?thesis by simp
next
  case (inserted v)
  with assms(2) MAX_CACHE_SIZE_pos show ?thesis by auto
qed

lemma reachable_size: "reachable c \<Longrightarrow> length c \<le> MAX_CACHE_SIZE"
proof (induction rule: reachable.induct)
  case initial
  show ?case by simp
next
  case (call c ip s)
  then show ?case using reachable_wf step_size by blast
qed

text \<open>Every entry of the cache holds what a call with its key computes.\<close>

lemma reachable_sound:
  "reachable c \<Longrightarrow> \<not> falsy s \<Longrightarrow> isIPv6 ip \<Longrightarrow> Map_get c (cacheKey ip s) = Some v
   \<Longrightarrow> fst (ipKeyGenerator ip s []) = Inr v"
proof (induction arbitrary: ip s v rule: reachable.induct)
  case initial
  then show ?case by (simp add: Map_get_def)
next
  case (call c ip0 s0)
  have wf: "Map_wf c" using call.hyps by (rule reachable_wf)
  from wf show ?case
  proof (cases rule: ipKeyGenerator_cases [of c ip0 s0])
    case same
    with call show ?thesis by simp
  next
    case (inserted v0)
    let ?e = "if MAX_CACHE_SIZE \<le> length c then tl c else c"
    from inserted(5) call.prems(3)
    have get: "Map_get (?e @ [(cacheKey ip0 s0, v0)]) (cacheKey ip s) = Some v" by simp
    show ?thesis
    proof (cases "Map_get ?e (cacheKey ip s)")
      case (Some w)
      with get have "w = v" by (simp add: Map_get_def)
      with Some wf have "Map_get c (cacheKey ip s) = Some v"
        by (auto simp: Map_get_tl_Some split: if_splits)
      with call.IH call.prems show ?thesis by blast
    next
      case None
      with get have "cacheKey ip s = cacheKey ip0 s0" and "v = v0"
        by (auto simp: Map_get_def map_add_def split: if_splits)
      with inserted(1,4) call.prems(1,2) show ?thesis
        using ipKeyGenerator_empty_cong [of ip s ip0 s0] by simp
    qed
  qed
qed

text \<open>The cache does not change what a call returns.\<close>

lemma cache_transparent:
  assumes "reachable c"
  shows "fst (ipKeyGenerator ip s c) = fst (ipKeyGenerator ip s [])"
proof (cases "Map_get c (cacheKey ip s)")
  case None
  then show ?thesis by (rule ipKeyGenerator_fst_miss)
next
  case (Some v)
  show ?thesis
  proof (cases "falsy s \<or> \<not> isIPv6 ip")
    case True
    then show ?thesis by (auto simp: ipKeyGenerator_def)
  next
    case False
    with assms Some have "fst (ipKeyGenerator ip s []) = Inr v"
      using reachable_sound by blast
    moreover from False Some have "ipKeyGenerator ip s c = (Inr v, c)"
      by (simp add: ipKeyGenerator_hit)
    ultimately show ?thesis by simp
  qed
qed

text \<open>Without a cache the function is the contract, but for the subnet size 0.\<close>

lemma ipKeyGenerator_empty_spec:
  assumes "s \<noteq> SubnetNumber 0"
  shows "fst (ipKeyGenerator ip s []) = normalize_spec ip s"
proof (cases s)
  case SubnetFalse
  then show ?thesis by (simp add: ipKeyGenerator_def normalize_spec_def)
next
  case (SubnetNumber n)
  with assms have n: "n \<noteq> 0" by simp
  show ?thesis
  proof (cases "parseIPv6 ip")
    case None
    with SubnetNumber show ?thesis
      by (simp add: ipKeyGenerator_def normalize_spec_def isIPv6_def)
  next
    case (Some gs)
    then have "isIPv6 ip" by (simp add: isIPv6_def)
    with n SubnetNumber have "fst (ipKeyGenerator ip s []) =
        (case Address6 (cacheKey ip s) of
           Inl e \<Rightarrow> Inl e
         | Inr a \<Rightarrow> Inr (correctForm (startAddress a) @ ''/'' @ subnet_to_string s))"
      by (intro ipKeyGenerator_empty) simp_all
    with Some SubnetNumber show ?thesis
      by (auto simp: Address6_cacheKey normalize_spec_def)
  qed
qed

section \<open>Misses\<close>

lemma nat_to_string_inject:
  assumes "nat_to_string m = nat_to_string n"
  shows "m = n"
proof -
  have "dec_val (nat_to_string m) = dec_val (nat_to_string n)"
    using assms by (rule arg_cong)
  then show ?thesis by (simp only: dec_val_nat_to_string)
qed

lemma collapsing_call_key_inject:
  assumes "collapsing_call (ip, s)" and "collapsing_call (ip', s')"
    and "cacheKey ip s = cacheKey ip' s'"
  shows "(ip, s) = (ip', s')"
proof -
  from assms(1) obtain n where s: "s = SubnetNumber n" and n: "1 \<le> n" by (cases s) auto
  from assms(2) obtain n' where s': "s' = SubnetNumber n'" and n': "1 \<le> n'" by (cases s') auto
  from assms(3) have "ip = ip'" and "subnet_to_string s = subnet_to_string s'"
    using cacheKey_inject by blast+
  with s s' n n' have "nat n = nat n'" using nat_to_string_inject by simp
  with n n' s s' \<open>ip = ip'\<close> show ?thesis by simp
qed

lemma collapsing_call_miss:
  assumes "Map_wf c" and "collapsing_call (ip, s)" and "Map_get c (cacheKey ip s) = None"
  shows "\<exists>key. ipKeyGenerator ip s c =
           (Inr key, (if MAX_CACHE_SIZE \<le> length c then tl c else c) @ [(cacheKey ip s, key)])"
proof -
  from assms(2) obtain n where s: "s = SubnetNumber n" and n: "1 \<le> n" "n \<le> 128"
    and ip: "isIPv6 ip" by (cases s) auto
  from ip obtain gs where "parseIPv6 ip = Some gs" by (auto simp: isIPv6_def)
  with n have a: "Address6 (cacheKey ip s) = Inr \<lparr>groups = gs, subnetMask = nat n\<rparr>"
    unfolding s by (simp add: Address6_cacheKey)
  from n s have "\<not> falsy s" by simp
  then show ?thesis
    using ip assms(3) a assms(1) by (intro exI, rule ipKeyGenerator_miss)
qed

lemma run_calls_keys:
  assumes "Map_wf c" and "length c \<le> MAX_CACHE_SIZE" and "list_all collapsing_call calls"
    and "distinct calls" and "list_all (\<lambda>(ip, s). Map_get c (cacheKey ip s) = None) calls"
  shows "map fst (run_calls calls c) =
           drop (length c + length calls - MAX_CACHE_SIZE)
             (map fst c @ map (\<lambda>(ip, s). cacheKey ip s) calls)"
  using assms
proof (induction calls arbitrary: c)
  case Nil
  then show ?case by simp
next
  case (Cons call calls)
  obtain ip s where call: "call = (ip, s)" by (cases call)
  let ?e = "if MAX_CACHE_SIZE \<le> length c then tl c else c"
  from Cons.prems call have cc: "collapsing_call (ip, s)"
    and miss: "Map_get c (cacheKey ip s) = None" by simp_all
  with Cons.prems(1) obtain key where
    step: "ipKeyGenerator ip s c = (Inr key, ?e @ [(cacheKey ip s, key)])"
    using collapsing_call_miss by blast
  let ?c' = "?e @ [(cacheKey ip s, key)]"
  have wf': "Map_wf ?c'"
    using Cons.prems(1) miss by (intro Map_wf_append_fresh) (simp_all add: Map_wf_tl Map_get_tl_None)
  have size': "length ?c' \<le> MAX_CACHE_SIZE"
    using Cons.prems(2) MAX_CACHE_SIZE_pos by auto
  have fresh': "list_all (\<lambda>(ip, s). Map_get ?c' (cacheKey ip s) = None) calls"
    unfolding list_all_iff
  proof
    fix call' assume in_calls: "call' \<in> set calls"
    obtain ip' s' where call': "call' = (ip', s')" by (cases call')
    from in_calls Cons.prems(3,5) call' have cc': "collapsing_call (ip', s')"
      and miss': "Map_get c (cacheKey ip' s') = None" by (auto simp: list_all_iff)
    from in_calls Cons.prems(4) call call' have "(ip', s') \<noteq> (ip, s)" by auto
    with cc cc' have "cacheKey ip' s' \<noteq> cacheKey ip s"
      using collapsing_call_key_inject by blast
    moreover from miss' have "Map_get ?e (cacheKey ip' s') = None"
      by (simp add: Map_get_tl_None)
    ultimately have "Map_get ?c' (cacheKey ip' s') = None"
      by (simp add: Map_get_def map_add_def)
    with call' show "case call' of (ip, s) \<Rightarrow> Map_get ?c' (cacheKey ip s) = None" by simp
  qed
  from Cons.prems have "list_all collapsing_call calls" and "distinct calls" by simp_all
  with Cons.IH [OF wf' size'] fresh'
  have IH: "map fst (run_calls calls ?c') =
      drop (length ?c' + length calls - MAX_CACHE_SIZE)
        (map fst ?c' @ map (\<lambda>(ip, s). cacheKey ip s) calls)" by blast
  have run: "run_calls (call # calls) c = run_calls calls ?c'"
    using call step by simp
  let ?ks = "map (\<lambda>(ip, s). cacheKey ip s) calls"
  show ?case
  proof (cases "MAX_CACHE_SIZE \<le> length c")
    case False
    then have "length c + length (call # calls) - MAX_CACHE_SIZE
        = length ?c' + length calls - MAX_CACHE_SIZE" by simp
    with False IH run call show ?thesis by simp
  next
    case True
    with Cons.prems(2) have len: "length c = MAX_CACHE_SIZE" by simp
    with MAX_CACHE_SIZE_pos obtain e rest where c: "c = e # rest" by (cases c) auto
    with len have M: "MAX_CACHE_SIZE = Suc (length rest)" by simp
    from IH c have "map fst (run_calls calls (rest @ [(cacheKey ip s, key)])) =
        drop (length calls) (map fst rest @ cacheKey ip s # ?ks)"
      unfolding M by (simp del: drop_append)
    moreover have "run_calls (call # calls) c = run_calls calls (rest @ [(cacheKey ip s, key)])"
      using run c unfolding M by simp
    moreover have "drop (length c + length (call # calls) - MAX_CACHE_SIZE)
          (map fst c @ map (\<lambda>(ip, s). cacheKey ip s) (call # calls))
        = drop (length calls) (map fst rest @ cacheKey ip s # ?ks)"
      using c call unfolding M by (simp del: drop_append)
    ultimately show ?thesis by simp
  qed
qed

text \<open>Once more keys were inserted than the cache holds, the earliest is gone.\<close>

lemma call_keys_distinct:
  assumes "Map_wf c" and "list_all collapsing_call calls" and "distinct calls"
    and "list_all (\<lambda>(ip, s). Map_get c (cacheKey ip s) = None) calls"
  shows "distinct (map fst c @ map (\<lambda>(ip, s). cacheKey ip s) calls)"
proof -
  have "inj_on (\<lambda>(ip, s). cacheKey ip s) (set calls)"
  proof (rule inj_onI)
    fix a b assume a: "a \<in> set calls" and b: "b \<in> set calls"
      and eq: "(case a of (ip, s) \<Rightarrow> cacheKey ip s) = (case b of (ip, s) \<Rightarrow> cacheKey ip s)"
    obtain ip s where a': "a = (ip, s)" by (cases a)
    obtain ip' s' where b': "b = (ip', s')" by (cases b)
    from a b assms(2) a' b' have "collapsing_call (ip, s)" and "collapsing_call (ip', s')"
      by (auto simp: list_all_iff)
    moreover from eq a' b' have "cacheKey ip s = cacheKey ip' s'" by simp
    ultimately show "a = b" using a' b' collapsing_call_key_inject by blast
  qed
  with assms(3) have "distinct (map (\<lambda>(ip, s). cacheKey ip s) calls)"
    by (simp add: distinct_map)
  moreover have "set (map fst c) \<inter> set (map (\<lambda>(ip, s). cacheKey ip s) calls) = {}"
  proof -
    have "k \<notin> set (map fst c)" if "k \<in> set (map (\<lambda>(ip, s). cacheKey ip s) calls)" for k
    proof -
      from that obtain ip s where "(ip, s) \<in> set calls" and k: "k = cacheKey ip s" by auto
      with assms(4) have "Map_get c k = None" by (auto simp: list_all_iff)
      then show ?thesis by (simp add: Map_get_None_iff)
    qed
    then show ?thesis by blast
  qed
  ultimately show ?thesis using assms(1) by (simp add: Map_wf_def)
qed

lemma hd_not_in_drop:
  assumes "distinct ks" and "0 < d"
  shows "hd ks \<notin> set (drop d ks)"
proof (cases ks)
  case Nil
  then show ?thesis by simp
next
  case (Cons k rest)
  from assms(2) obtain d' where "d = Suc d'" by (cases d) auto
  with Cons have "set (drop d ks) \<subseteq> set rest" by (simp add: set_drop_subset)
  moreover from assms(1) Cons have "k \<notin> set rest" by simp
  ultimately show ?thesis using Cons by auto
qed

lemma run_calls_fifo:
  assumes "Map_wf c" and "length c \<le> MAX_CACHE_SIZE" and "list_all collapsing_call calls"
    and "distinct calls" and "list_all (\<lambda>(ip, s). Map_get c (cacheKey ip s) = None) calls"
    and "MAX_CACHE_SIZE < length c + length calls"
  shows "length (run_calls calls c) = MAX_CACHE_SIZE"
    and "Map_get (run_calls calls c)
           (hd (map fst c @ map (\<lambda>(ip, s). cacheKey ip s) calls)) = None"
    and "\<forall>k \<in> set (drop (length c + length calls - MAX_CACHE_SIZE)
                    (map fst c @ map (\<lambda>(ip, s). cacheKey ip s) calls)).
           Map_get (run_calls calls c) k \<noteq> None"
proof -
  let ?K = "map fst c @ map (\<lambda>(ip, s). cacheKey ip s) calls"
  let ?d = "length c + length calls - MAX_CACHE_SIZE"
  have keys: "map fst (run_calls calls c) = drop ?d ?K"
    using assms(1-5) by (rule run_calls_keys)
  then have "length (map fst (run_calls calls c)) = length (drop ?d ?K)" by simp
  with assms(6) show "length (run_calls calls c) = MAX_CACHE_SIZE" by simp
  have "distinct ?K" using assms(1,3,4,5) by (rule call_keys_distinct)
  moreover from assms(6) have "0 < ?d" by simp
  ultimately have "hd ?K \<notin> set (drop ?d ?K)" by (rule hd_not_in_drop)
  with keys have "hd ?K \<notin> set (map fst (run_calls calls c))" by simp
  then show "Map_get (run_calls calls c) (hd ?K) = None" by (simp add: Map_get_None_iff)
  show "\<forall>k \<in> set (drop ?d ?K). Map_get (run_calls calls c) k \<noteq> None"
  proof
    fix k assume "k \<in> set (drop ?d ?K)"
    with keys have "k \<in> set (map fst (run_calls calls c))" by simp
    then show "Map_get (run_calls calls c) k \<noteq> None" by (simp add: Map_get_None_iff)
  qed
qed

section \<open>The filled cache\<close>

lemma length_filled_cache: "length (filled_cache n) = n"
  by (simp add: filled_cache_def)

lemma Map_wf_filled_cache: "Map_wf (filled_cache n)"
proof -
  have "inj_on (\<lambda>i. replicate (Suc i) CHR ''x'') A" for A
  proof (rule inj_onI)
    fix i j assume "replicate (Suc i) CHR ''x'' = replicate (Suc j) CHR ''x''"
    then have "length (replicate (Suc i) CHR ''x'') = length (replicate (Suc j) CHR ''x'')"
      by (rule arg_cong)
    then show "i = j" by simp
  qed
  then show ?thesis
    by (simp add: Map_wf_def filled_cache_def distinct_map comp_def)
qed

lemma Map_get_filled_cache:
  assumes "d \<in> set k" and "d \<noteq> CHR ''x''"
  shows "Map_get (filled_cache n) k = None"
proof -
  have "k \<notin> fst ` set (filled_cache n)"
  proof
    assume "k \<in> fst ` set (filled_cache n)"
    then obtain i where "k = replicate (Suc i) CHR ''x''"
      by (auto simp: filled_cache_def)
    with assms show False by auto
  qed
  then show ?thesis by (simp add: Map_get_None_iff)
qed

lemma Map_get_filled_cache_present:
  assumes "i < n"
  shows "Map_get (filled_cache n) (replicate (Suc i) CHR ''x'') = Some ''y''"
proof -
  from assms have "i \<in> set [0..<n]" by simp
  then have "(replicate (Suc i) CHR ''x'', ''y'')
      \<in> (\<lambda>i. (replicate (Suc i) CHR ''x'', ''y'')) ` set [0..<n]"
    by (rule imageI)
  then have "(replicate (Suc i) CHR ''x'', ''y'') \<in> set (filled_cache n)"
    by (simp add: filled_cache_def)
  moreover have "distinct (map fst (filled_cache n))"
    using Map_wf_filled_cache [of n] by (simp add: Map_wf_def)
  ultimately show ?thesis by (simp add: Map_get_def)
qed

lemma filled_cache_Suc:
  "filled_cache (Suc n) = (''x'', ''y'') # map (\<lambda>i. (replicate (Suc (Suc i)) CHR ''x'', ''y'')) [0..<n]"
proof -
  have "[0..<Suc n] = 0 # map Suc [0..<n]" by (simp add: upt_conv_Cons map_Suc_upt del: upt_Suc)
  then show ?thesis by (simp add: filled_cache_def comp_def del: upt_Suc)
qed

section \<open>The fast path\<close>

text \<open>
  Claim C1. An input that is not a syntactically valid IPv6 address comes back unchanged
  whatever the subnet size is, and so does every input when the subnet size is
  \<^verbatim>\<open>false\<close>; the call returns (it does not throw) and the cache is as it was.
\<close>

theorem C1_fast_path:
  "\<not> isIPv6 ip \<or> s = SubnetFalse \<Longrightarrow> ipKeyGenerator ip s c = (Inr ip, c)"
  by (auto simp: ipKeyGenerator_def)

theorem C1_fast_path_witness:
  "\<not> isIPv6 ''203.0.113.5''
   \<and> ipKeyGenerator ''203.0.113.5'' (SubnetNumber 56) [] = (Inr ''203.0.113.5'', [])
   \<and> ipKeyGenerator ''not an address'' (SubnetNumber 64) [(''::1/64'', ''::/64'')]
       = (Inr ''not an address'', [(''::1/64'', ''::/64'')])
   \<and> ipKeyGenerator ''2001:db8::1'' SubnetFalse [] = (Inr ''2001:db8::1'', [])"
proof -
  have a: "\<not> isIPv6 ''203.0.113.5''" by code_simp
  have b: "\<not> isIPv6 ''not an address''" by code_simp
  show ?thesis
    using a C1_fast_path [of "''203.0.113.5''" "SubnetNumber 56" "[]"]
      C1_fast_path [of "''not an address''" "SubnetNumber 64" "[(''::1/64'', ''::/64'')]"] b
      C1_fast_path [of "''2001:db8::1''" SubnetFalse "[]"]
    by simp
qed

text \<open>
  Claim C9. With the subnet size 0 every input comes back unchanged: 0 is falsy, as
  \<^verbatim>\<open>false\<close> is, so the call returns before it reads the address or the cache, whatever
  the cache holds, and it is not taken as an invalid subnet size.
\<close>

theorem C9_zero_is_falsy: "ipKeyGenerator ip (SubnetNumber 0) c = (Inr ip, c)"
  by (simp add: ipKeyGenerator_def)

theorem C9_zero_is_falsy_witness:
  "isIPv6 ''2001:db8::1''
   \<and> ipKeyGenerator ''2001:db8::1'' (SubnetNumber 0) [] = (Inr ''2001:db8::1'', [])
   \<and> ipKeyGenerator ''2001:db8::1'' (SubnetNumber 0) [(''2001:db8::1/0'', ''cached'')]
       = (Inr ''2001:db8::1'', [(''2001:db8::1/0'', ''cached'')])"
proof -
  have "isIPv6 ''2001:db8::1''" by code_simp
  then show ?thesis
    using C9_zero_is_falsy [of "''2001:db8::1''" "[]"]
      C9_zero_is_falsy [of "''2001:db8::1''" "[(''2001:db8::1/0'', ''cached'')]"]
    by simp
qed

section \<open>The example of the specification\<close>

lemma example_call:
  "ipKeyGenerator ''2001:db8:85a3::8a2e:370:7334'' (SubnetNumber 56) [] =
     (Inr ''2001:db8:85a3::/56'',
      [(''2001:db8:85a3::8a2e:370:7334/56'', ''2001:db8:85a3::/56'')])"
  by code_simp

lemma example_valid: "isIPv6 ''2001:db8:85a3::8a2e:370:7334''"
  by code_simp

lemma example_reachable:
  "reachable [(''2001:db8:85a3::8a2e:370:7334/56'', ''2001:db8:85a3::/56'')]"
  using reachable.call [OF reachable.initial, of "''2001:db8:85a3::8a2e:370:7334''" "SubnetNumber 56"]
  by (simp add: example_call)

section \<open>The cache and the contract\<close>

text \<open>
  Claim C3. The cache is transparent. In every state that the cache can reach, with or
  without evictions behind it, a call with a valid IPv6 address and a subnet size from 1
  to 128 returns the text of the cache-free contract \<open>normalize_spec\<close>, which is a
  key and not an error; a second call with the same arguments returns what the first did;
  and for all arguments a call returns what it returns on the empty cache.
\<close>

theorem C3_cache_transparent:
  assumes "reachable c"
  shows "(isIPv6 ip \<and> 1 \<le> n \<and> n \<le> 128 \<longrightarrow>
            fst (ipKeyGenerator ip (SubnetNumber n) c) = normalize_spec ip (SubnetNumber n)
            \<and> (\<exists>key. normalize_spec ip (SubnetNumber n) = Inr key))
         \<and> fst (ipKeyGenerator ip s (snd (ipKeyGenerator ip s c))) = fst (ipKeyGenerator ip s c)
         \<and> fst (ipKeyGenerator ip s c) = fst (ipKeyGenerator ip s [])"
proof (intro conjI impI)
  assume a: "isIPv6 ip \<and> 1 \<le> n \<and> n \<le> 128"
  then have "SubnetNumber n \<noteq> SubnetNumber 0" by simp
  then show "fst (ipKeyGenerator ip (SubnetNumber n) c) = normalize_spec ip (SubnetNumber n)"
    using assms by (simp add: cache_transparent ipKeyGenerator_empty_spec)
  from a show "\<exists>key. normalize_spec ip (SubnetNumber n) = Inr key"
    by (auto simp: normalize_spec_def isIPv6_def)
next
  have "reachable (snd (ipKeyGenerator ip s c))" using assms by (rule reachable.call)
  then show "fst (ipKeyGenerator ip s (snd (ipKeyGenerator ip s c))) = fst (ipKeyGenerator ip s c)"
    using assms by (simp add: cache_transparent)
next
  show "fst (ipKeyGenerator ip s c) = fst (ipKeyGenerator ip s [])"
    using assms by (rule cache_transparent)
qed

theorem C3_cache_transparent_witness:
  "reachable [(''2001:db8:85a3::8a2e:370:7334/56'', ''2001:db8:85a3::/56'')]
   \<and> isIPv6 ''2001:db8:85a3::8a2e:370:7334''
   \<and> fst (ipKeyGenerator ''2001:db8:85a3::8a2e:370:7334'' (SubnetNumber 56)
            [(''2001:db8:85a3::8a2e:370:7334/56'', ''2001:db8:85a3::/56'')])
       = normalize_spec ''2001:db8:85a3::8a2e:370:7334'' (SubnetNumber 56)
   \<and> fst (ipKeyGenerator ''2001:db8:85a3::8a2e:370:7334'' (SubnetNumber 56)
            [(''2001:db8:85a3::8a2e:370:7334/56'', ''2001:db8:85a3::/56'')])
       = fst (ipKeyGenerator ''2001:db8:85a3::8a2e:370:7334'' (SubnetNumber 56) [])"
proof -
  have "(1::int) \<le> 56 \<and> (56::int) \<le> 128" by simp
  then show ?thesis
    using C3_cache_transparent [OF example_reachable,
        of "''2001:db8:85a3::8a2e:370:7334''" 56 "SubnetNumber 56"]
      example_reachable example_valid
    by blast
qed

section \<open>Subnet sizes out of range\<close>

text \<open>
  Claim C4, as amended. For a valid IPv6 address and a subnet size below 0 or above 128,
  in every state that the cache can reach, the call throws \<open>InvalidSubnetSize\<close> and
  leaves the cache as it was: no size is clamped into the range. The size 0, which is
  out of the range too, is falsy and gives the address back (claim C9), which is why the
  claim does not hold as it is stated; the counterexample follows the theorem.
\<close>

theorem C4_invalid_subnet_size:
  assumes "reachable c" and "isIPv6 ip" and "n < 0 \<or> 128 < n"
  shows "ipKeyGenerator ip (SubnetNumber n) c = (Inl InvalidSubnetSize, c)"
proof -
  from assms(2) obtain gs where gs: "parseIPv6 ip = Some gs" by (auto simp: isIPv6_def)
  from assms(3) have nf: "\<not> falsy (SubnetNumber n)" by auto
  from assms(3) have "\<not> (1 \<le> n \<and> n \<le> 128)" by arith
  then have "fst (ipKeyGenerator ip (SubnetNumber n) []) = Inl InvalidSubnetSize"
    by (simp add: ipKeyGenerator_empty [OF nf assms(2)] Address6_cacheKey [OF gs])
  with assms(1) have res: "fst (ipKeyGenerator ip (SubnetNumber n) c) = Inl InvalidSubnetSize"
    by (simp add: cache_transparent)
  from assms(1) have "Map_wf c" by (rule reachable_wf)
  then have "snd (ipKeyGenerator ip (SubnetNumber n) c) = c"
  proof (cases rule: ipKeyGenerator_cases [of c ip "SubnetNumber n"])
    case same
    then show ?thesis .
  next
    case (inserted v)
    with res show ?thesis by simp
  qed
  with res show ?thesis by (simp add: prod_eq_iff)
qed

theorem C4_invalid_subnet_size_witness:
  "isIPv6 ''2001:db8::1''
   \<and> ipKeyGenerator ''2001:db8::1'' (SubnetNumber 129) [] = (Inl InvalidSubnetSize, [])
   \<and> ipKeyGenerator ''2001:db8::1'' (SubnetNumber (- 1))
        [(''2001:db8:85a3::8a2e:370:7334/56'', ''2001:db8:85a3::/56'')]
       = (Inl InvalidSubnetSize, [(''2001:db8:85a3::8a2e:370:7334/56'', ''2001:db8:85a3::/56'')])"
proof -
  have v: "isIPv6 ''2001:db8::1''" by code_simp
  show ?thesis
    using v C4_invalid_subnet_size [OF reachable.initial v, of 129]
      C4_invalid_subnet_size [OF example_reachable v, of "- 1"]
    by simp
qed

text \<open>
  The subnet size 0 with a valid address: the address comes back and nothing is thrown.
\<close>

theorem C4_counterexample:
  "isIPv6 ''2001:db8::1'' \<and> \<not> (1 \<le> (0::int) \<and> (0::int) \<le> 128)
   \<and> ipKeyGenerator ''2001:db8::1'' (SubnetNumber 0) [] = (Inr ''2001:db8::1'', [])"
  by code_simp

section \<open>The /56 key of the example\<close>

text \<open>
  Claim C5, as amended. For \<^verbatim>\<open>2001:db8:85a3::8a2e:370:7334\<close> and the subnet size 56
  the call returns \<^verbatim>\<open>2001:db8:85a3::/56\<close>, in every state that the cache can reach:
  the first 56 bits of the address are \<^verbatim>\<open>2001:0db8:85a3:00\<close>, so the third group stays
  whole. This is the text of the contract \<open>normalize_spec\<close> as well. The text \<^verbatim>\<open>2001:db8:85::/56\<close> of the specification is not what is returned,
  as the counterexample after the theorem shows.
\<close>

theorem C5_example_key:
  assumes "reachable c"
  shows "fst (ipKeyGenerator ''2001:db8:85a3::8a2e:370:7334'' (SubnetNumber 56) c)
           = Inr ''2001:db8:85a3::/56''
         \<and> normalize_spec ''2001:db8:85a3::8a2e:370:7334'' (SubnetNumber 56)
           = Inr ''2001:db8:85a3::/56''"
proof
  show "fst (ipKeyGenerator ''2001:db8:85a3::8a2e:370:7334'' (SubnetNumber 56) c)
      = Inr ''2001:db8:85a3::/56''"
    using assms by (simp add: cache_transparent example_call)
  show "normalize_spec ''2001:db8:85a3::8a2e:370:7334'' (SubnetNumber 56)
      = Inr ''2001:db8:85a3::/56''"
    using ipKeyGenerator_empty_spec [of "SubnetNumber 56" "''2001:db8:85a3::8a2e:370:7334''"]
    by (simp add: example_call)
qed

theorem C5_example_key_witness:
  "fst (ipKeyGenerator ''2001:db8:85a3::8a2e:370:7334'' (SubnetNumber 56) [])
     = Inr ''2001:db8:85a3::/56''
   \<and> fst (ipKeyGenerator ''2001:db8:85a3::8a2e:370:7334'' (SubnetNumber 56)
          [(''2001:db8:85a3::8a2e:370:7334/56'', ''2001:db8:85a3::/56'')])
     = Inr ''2001:db8:85a3::/56''"
  using C5_example_key [OF reachable.initial] C5_example_key [OF example_reachable]
  by simp

text \<open>The text that the specification gives for the example is not the result.\<close>

theorem C5_counterexample:
  "fst (ipKeyGenerator ''2001:db8:85a3::8a2e:370:7334'' (SubnetNumber 56) [])
     \<noteq> Inr ''2001:db8:85::/56''"
  by code_simp

section \<open>The default subnet size\<close>

text \<open>
  Claim C8. A call without the second argument is the call with the subnet size 56. So
  for a valid IPv6 address, in every state that the cache can reach, it returns the
  canonical text of the start of the /56 subnet of the address with \<^verbatim>\<open>/56\<close> appended,
  and never the address unchanged.
\<close>

theorem C8_default_subnet:
  "ipKeyGenerator_default ip None c = ipKeyGenerator ip (SubnetNumber 56) c
   \<and> (reachable c \<and> parseIPv6 ip = Some gs \<longrightarrow>
        fst (ipKeyGenerator_default ip None c)
          = Inr (correctForm (startAddress \<lparr>groups = gs, subnetMask = 56\<rparr>) @ ''/56'')
        \<and> fst (ipKeyGenerator_default ip None c) \<noteq> Inr ip)"
proof (intro conjI impI)
  show d: "ipKeyGenerator_default ip None c = ipKeyGenerator ip (SubnetNumber 56) c"
    by (simp add: ipKeyGenerator_default_def)
  assume a: "reachable c \<and> parseIPv6 ip = Some gs"
  then have "fst (ipKeyGenerator ip (SubnetNumber 56) c) = normalize_spec ip (SubnetNumber 56)"
    by (simp add: cache_transparent ipKeyGenerator_empty_spec)
  moreover have "nat_to_string 56 = ''56''" by code_simp
  ultimately show r: "fst (ipKeyGenerator_default ip None c)
      = Inr (correctForm (startAddress \<lparr>groups = gs, subnetMask = 56\<rparr>) @ ''/56'')"
    using a d by (simp add: normalize_spec_def)
  from a have "CHR ''/'' \<notin> set ip" by (intro isIPv6_no_slash) (simp add: isIPv6_def)
  then have "ip \<noteq> correctForm (startAddress \<lparr>groups = gs, subnetMask = 56\<rparr>) @ ''/56''"
    by auto
  with r show "fst (ipKeyGenerator_default ip None c) \<noteq> Inr ip" by simp
qed

theorem C8_default_subnet_witness:
  "parseIPv6 ''2001:db8:85a3::8a2e:370:7334'' = Some [8193, 3512, 34211, 0, 0, 35374, 880, 29492]
   \<and> ipKeyGenerator_default ''2001:db8:85a3::8a2e:370:7334'' None []
       = ipKeyGenerator ''2001:db8:85a3::8a2e:370:7334'' (SubnetNumber 56) []
   \<and> fst (ipKeyGenerator_default ''2001:db8:85a3::8a2e:370:7334'' None [])
       = Inr ''2001:db8:85a3::/56''
   \<and> fst (ipKeyGenerator_default ''2001:db8:85a3::8a2e:370:7334'' None [])
       \<noteq> Inr ''2001:db8:85a3::8a2e:370:7334''"
proof -
  have p: "parseIPv6 ''2001:db8:85a3::8a2e:370:7334''
      = Some [8193, 3512, 34211, 0, 0, 35374, 880, 29492]" by code_simp
  have f: "correctForm (startAddress
      \<lparr>groups = [8193, 3512, 34211, 0, 0, 35374, 880, 29492], subnetMask = 56\<rparr>)
      = ''2001:db8:85a3::''" by code_simp
  note t = C8_default_subnet [of "''2001:db8:85a3::8a2e:370:7334''" "[]"
      "[8193, 3512, 34211, 0, 0, 35374, 880, 29492]"]
  from t have d: "ipKeyGenerator_default ''2001:db8:85a3::8a2e:370:7334'' None []
      = ipKeyGenerator ''2001:db8:85a3::8a2e:370:7334'' (SubnetNumber 56) []"
    by (rule conjunct1)
  from t reachable.initial p
  have "fst (ipKeyGenerator_default ''2001:db8:85a3::8a2e:370:7334'' None [])
      = Inr (correctForm (startAddress
          \<lparr>groups = [8193, 3512, 34211, 0, 0, 35374, 880, 29492], subnetMask = 56\<rparr>) @ ''/56'')"
    and n: "fst (ipKeyGenerator_default ''2001:db8:85a3::8a2e:370:7334'' None [])
      \<noteq> Inr ''2001:db8:85a3::8a2e:370:7334''"
    by blast+
  then have "fst (ipKeyGenerator_default ''2001:db8:85a3::8a2e:370:7334'' None [])
      = Inr ''2001:db8:85a3::/56''"
    unfolding f by simp
  with p d n show ?thesis by (intro conjI)
qed

section \<open>Applying the function to its result\<close>

text \<open>
  Claim C10. In every state that the cache can reach, the function applied to its own
  result, with the same subnet size, gives what the first application gave, and leaves
  the cache as the first application left it: a key that was collapsed has a slash in it,
  so it is no valid IPv6 address and falls through the fast path.
\<close>

theorem C10_idempotent:
  assumes "reachable c"
  shows "ipKeyGenerator_twice ip s c = ipKeyGenerator ip s c"
proof (cases "falsy s \<or> \<not> isIPv6 ip")
  case True
  then have "ipKeyGenerator ip s c = (Inr ip, c)" by (auto simp: ipKeyGenerator_def)
  then show ?thesis by (simp add: ipKeyGenerator_twice_def)
next
  case False
  then have s: "\<not> falsy s" and ip: "isIPv6 ip" by simp_all
  obtain r c' where call: "ipKeyGenerator ip s c = (r, c')" by (cases "ipKeyGenerator ip s c")
  with assms have r: "r = fst (ipKeyGenerator ip s [])"
    using cache_transparent [of c ip s] by simp
  show ?thesis
  proof (cases r)
    case (Inl e)
    with call show ?thesis by (simp add: ipKeyGenerator_twice_def)
  next
    case (Inr key)
    with r s ip obtain a where
      "key = correctForm (startAddress a) @ ''/'' @ subnet_to_string s"
      by (auto simp: ipKeyGenerator_empty split: sum.splits)
    then have "CHR ''/'' \<in> set key" by simp
    then have "\<not> isIPv6 key" using isIPv6_no_slash by blast
    then have "ipKeyGenerator key s c' = (Inr key, c')" by (simp add: ipKeyGenerator_def)
    with call Inr show ?thesis by (simp add: ipKeyGenerator_twice_def)
  qed
qed

theorem C10_idempotent_witness:
  "ipKeyGenerator_twice ''2001:db8:85a3::8a2e:370:7334'' (SubnetNumber 56) []
     = (Inr ''2001:db8:85a3::/56'',
        [(''2001:db8:85a3::8a2e:370:7334/56'', ''2001:db8:85a3::/56'')])"
  using C10_idempotent [OF reachable.initial, of "''2001:db8:85a3::8a2e:370:7334''" "SubnetNumber 56"]
  by (simp add: example_call)

section \<open>The bound of the cache and its eviction\<close>

text \<open>
  Claim C2. The cache never holds more than \<open>MAX_CACHE_SIZE\<close>, that is 10000,
  entries: that holds in every state that the cache can reach, and a call keeps it. A call
  that asks for a subnet key that is not in the cache appends the entry of the key at the
  end, and when the cache is full it first drops one entry, the oldest. A call whose key is
  in the cache leaves the cache as it is, order included, so the order is that of
  insertion and not of access. Hence after calls for distinct subnet keys that were not
  cached, the keys of the cache are the last \<open>MAX_CACHE_SIZE\<close> of the keys it had and
  of the keys of the calls, in this order; and once these are more than
  \<open>MAX_CACHE_SIZE\<close>, the cache is full, the earliest of them is absent and the latest
  \<open>MAX_CACHE_SIZE\<close> of them are all present.
\<close>

theorem C2_cache_bounded_fifo:
  "(reachable c0 \<longrightarrow> Map_size c0 \<le> MAX_CACHE_SIZE)
   \<and> (Map_wf c \<and> Map_size c \<le> MAX_CACHE_SIZE \<longrightarrow>
        Map_size (snd (ipKeyGenerator ip s c)) \<le> MAX_CACHE_SIZE)
   \<and> (Map_wf c \<and> collapsing_call (ip, s) \<and> Map_get c (cacheKey ip s) = None \<longrightarrow>
        (\<exists>key. ipKeyGenerator ip s c =
           (Inr key,
            (if MAX_CACHE_SIZE \<le> Map_size c then tl c else c) @ [(cacheKey ip s, key)])))
   \<and> (Map_get c (cacheKey ip s) \<noteq> None \<longrightarrow> snd (ipKeyGenerator ip s c) = c)
   \<and> (Map_wf c \<and> Map_size c \<le> MAX_CACHE_SIZE \<and> list_all collapsing_call calls
        \<and> distinct calls \<and> list_all (\<lambda>(ip, s). Map_get c (cacheKey ip s) = None) calls \<longrightarrow>
        map fst (run_calls calls c) =
          drop (Map_size c + length calls - MAX_CACHE_SIZE)
            (map fst c @ map (\<lambda>(ip, s). cacheKey ip s) calls)
        \<and> (MAX_CACHE_SIZE < Map_size c + length calls \<longrightarrow>
             Map_size (run_calls calls c) = MAX_CACHE_SIZE
             \<and> Map_get (run_calls calls c)
                  (hd (map fst c @ map (\<lambda>(ip, s). cacheKey ip s) calls)) = None
             \<and> (\<forall>k \<in> set (drop (Map_size c + length calls - MAX_CACHE_SIZE)
                             (map fst c @ map (\<lambda>(ip, s). cacheKey ip s) calls)).
                    Map_get (run_calls calls c) k \<noteq> None)))"
proof (intro conjI impI)
  assume "reachable c0"
  then show "Map_size c0 \<le> MAX_CACHE_SIZE" by (simp add: Map_size_def reachable_size)
next
  assume "Map_wf c \<and> Map_size c \<le> MAX_CACHE_SIZE"
  then show "Map_size (snd (ipKeyGenerator ip s c)) \<le> MAX_CACHE_SIZE"
    by (simp add: Map_size_def step_size)
next
  assume "Map_wf c \<and> collapsing_call (ip, s) \<and> Map_get c (cacheKey ip s) = None"
  then show "\<exists>key. ipKeyGenerator ip s c =
      (Inr key, (if MAX_CACHE_SIZE \<le> Map_size c then tl c else c) @ [(cacheKey ip s, key)])"
    unfolding Map_size_def by (intro collapsing_call_miss) simp_all
next
  assume "Map_get c (cacheKey ip s) \<noteq> None"
  then show "snd (ipKeyGenerator ip s c) = c"
    by (auto simp: ipKeyGenerator_def)
next
  assume a: "Map_wf c \<and> Map_size c \<le> MAX_CACHE_SIZE \<and> list_all collapsing_call calls
    \<and> distinct calls \<and> list_all (\<lambda>(ip, s). Map_get c (cacheKey ip s) = None) calls"
  then show "map fst (run_calls calls c) =
      drop (Map_size c + length calls - MAX_CACHE_SIZE)
        (map fst c @ map (\<lambda>(ip, s). cacheKey ip s) calls)"
    unfolding Map_size_def by (intro run_calls_keys) simp_all
  assume more: "MAX_CACHE_SIZE < Map_size c + length calls"
  from a more show "Map_size (run_calls calls c) = MAX_CACHE_SIZE"
    unfolding Map_size_def by (intro run_calls_fifo(1)) simp_all
  from a more show "Map_get (run_calls calls c)
      (hd (map fst c @ map (\<lambda>(ip, s). cacheKey ip s) calls)) = None"
    unfolding Map_size_def by (intro run_calls_fifo(2)) simp_all
  from a more show "\<forall>k \<in> set (drop (Map_size c + length calls - MAX_CACHE_SIZE)
      (map fst c @ map (\<lambda>(ip, s). cacheKey ip s) calls)).
        Map_get (run_calls calls c) k \<noteq> None"
    unfolding Map_size_def by (intro run_calls_fifo(3)) simp_all
qed

text \<open>The example address on a cache that is full.\<close>

lemma example_fresh:
  "Map_get (filled_cache n) (cacheKey ''2001:db8:85a3::8a2e:370:7334'' (SubnetNumber 56)) = None"
proof (rule Map_get_filled_cache)
  show "CHR ''/'' \<in> set (cacheKey ''2001:db8:85a3::8a2e:370:7334'' (SubnetNumber 56))"
    by (simp add: cacheKey_def)
  show "CHR ''/'' \<noteq> CHR ''x''" by simp
qed

lemma example_cacheKey:
  "cacheKey ''2001:db8:85a3::8a2e:370:7334'' (SubnetNumber 56) = ''2001:db8:85a3::8a2e:370:7334/56''"
  by code_simp

lemma example_full_call:
  "ipKeyGenerator ''2001:db8:85a3::8a2e:370:7334'' (SubnetNumber 56) (filled_cache MAX_CACHE_SIZE)
     = (Inr ''2001:db8:85a3::/56'',
        tl (filled_cache MAX_CACHE_SIZE)
          @ [(''2001:db8:85a3::8a2e:370:7334/56'', ''2001:db8:85a3::/56'')])"
proof -
  let ?ip = "''2001:db8:85a3::8a2e:370:7334''"
  let ?full = "filled_cache MAX_CACHE_SIZE"
  have "collapsing_call (?ip, SubnetNumber 56)" by (simp add: example_valid)
  then have "\<exists>key. ipKeyGenerator ?ip (SubnetNumber 56) ?full
      = (Inr key, (if MAX_CACHE_SIZE \<le> length ?full then tl ?full else ?full)
          @ [(cacheKey ?ip (SubnetNumber 56), key)])"
    using Map_wf_filled_cache example_fresh by (intro collapsing_call_miss)
  then obtain key where step: "ipKeyGenerator ?ip (SubnetNumber 56) ?full
      = (Inr key, tl ?full @ [(cacheKey ?ip (SubnetNumber 56), key)])"
    by (auto simp: length_filled_cache)
  have "fst (ipKeyGenerator ?ip (SubnetNumber 56) ?full)
      = fst (ipKeyGenerator ?ip (SubnetNumber 56) [])"
    using example_fresh by (rule ipKeyGenerator_fst_miss)
  with step have "key = ''2001:db8:85a3::/56''" by (simp add: example_call)
  with step show ?thesis by (simp add: example_cacheKey)
qed

theorem C2_cache_bounded_fifo_witness:
  "Map_wf (filled_cache MAX_CACHE_SIZE)
   \<and> Map_size (filled_cache MAX_CACHE_SIZE) = MAX_CACHE_SIZE
   \<and> collapsing_call (''2001:db8:85a3::8a2e:370:7334'', SubnetNumber 56)
   \<and> Map_get (filled_cache MAX_CACHE_SIZE) ''2001:db8:85a3::8a2e:370:7334/56'' = None
   \<and> Map_size [(''2001:db8:85a3::8a2e:370:7334/56'', ''2001:db8:85a3::/56'')] \<le> MAX_CACHE_SIZE
   \<and> Map_size (snd (ipKeyGenerator ''2001:db8:85a3::8a2e:370:7334'' (SubnetNumber 56)
        (filled_cache MAX_CACHE_SIZE))) \<le> MAX_CACHE_SIZE
   \<and> ipKeyGenerator ''2001:db8:85a3::8a2e:370:7334'' (SubnetNumber 56)
        (filled_cache MAX_CACHE_SIZE)
       = (Inr ''2001:db8:85a3::/56'',
          tl (filled_cache MAX_CACHE_SIZE)
            @ [(''2001:db8:85a3::8a2e:370:7334/56'', ''2001:db8:85a3::/56'')])
   \<and> snd (ipKeyGenerator ''2001:db8:85a3::8a2e:370:7334'' (SubnetNumber 56)
        [(''2001:db8:85a3::8a2e:370:7334/56'', ''2001:db8:85a3::/56'')])
       = [(''2001:db8:85a3::8a2e:370:7334/56'', ''2001:db8:85a3::/56'')]
   \<and> map fst (run_calls [(''2001:db8:85a3::8a2e:370:7334'', SubnetNumber 56)]
        (filled_cache MAX_CACHE_SIZE))
       = drop 1 (map fst (filled_cache MAX_CACHE_SIZE) @ [''2001:db8:85a3::8a2e:370:7334/56''])
   \<and> Map_size (run_calls [(''2001:db8:85a3::8a2e:370:7334'', SubnetNumber 56)]
        (filled_cache MAX_CACHE_SIZE)) = MAX_CACHE_SIZE
   \<and> Map_get (filled_cache MAX_CACHE_SIZE) ''x'' = Some ''y''
   \<and> Map_get (run_calls [(''2001:db8:85a3::8a2e:370:7334'', SubnetNumber 56)]
        (filled_cache MAX_CACHE_SIZE)) ''x'' = None
   \<and> Map_get (run_calls [(''2001:db8:85a3::8a2e:370:7334'', SubnetNumber 56)]
        (filled_cache MAX_CACHE_SIZE)) ''2001:db8:85a3::8a2e:370:7334/56'' \<noteq> None"
proof -
  let ?ip = "''2001:db8:85a3::8a2e:370:7334''"
  let ?key = "''2001:db8:85a3::8a2e:370:7334/56''"
  let ?full = "filled_cache MAX_CACHE_SIZE"
  let ?one = "[(?key, ''2001:db8:85a3::/56'')]"
  let ?calls = "[(?ip, SubnetNumber 56)]"
  have wf: "Map_wf ?full" by (rule Map_wf_filled_cache)
  have size: "Map_size ?full = MAX_CACHE_SIZE" by (simp add: Map_size_def length_filled_cache)
  have cc: "collapsing_call (?ip, SubnetNumber 56)" by (simp add: example_valid)
  have fresh: "Map_get ?full (cacheKey ?ip (SubnetNumber 56)) = None" by (rule example_fresh)
  have one: "Map_get ?one (cacheKey ?ip (SubnetNumber 56)) \<noteq> None"
    by (simp add: example_cacheKey Map_get_def)
  have calls: "list_all collapsing_call ?calls" "distinct ?calls"
    "list_all (\<lambda>(ip, s). Map_get ?full (cacheKey ip s) = None) ?calls"
    using cc fresh by simp_all
  have more: "MAX_CACHE_SIZE < Map_size ?full + length ?calls" by (simp add: size)
  note full = C2_cache_bounded_fifo [of ?one ?full ?ip "SubnetNumber 56" ?calls]
  note hit = C2_cache_bounded_fifo [of ?one ?one ?ip "SubnetNumber 56" "[]"]
  from full example_reachable have b0: "Map_size ?one \<le> MAX_CACHE_SIZE" by blast
  from full wf size have b1: "Map_size (snd (ipKeyGenerator ?ip (SubnetNumber 56) ?full))
      \<le> MAX_CACHE_SIZE" by simp
  from full wf cc fresh size obtain key where
    step: "ipKeyGenerator ?ip (SubnetNumber 56) ?full
      = (Inr key, tl ?full @ [(cacheKey ?ip (SubnetNumber 56), key)])" by auto
  have "fst (ipKeyGenerator ?ip (SubnetNumber 56) ?full)
      = fst (ipKeyGenerator ?ip (SubnetNumber 56) [])"
    using fresh by (rule ipKeyGenerator_fst_miss)
  with step have "key = ''2001:db8:85a3::/56''" by (simp add: example_call)
  with step have b2: "ipKeyGenerator ?ip (SubnetNumber 56) ?full
      = (Inr ''2001:db8:85a3::/56'', tl ?full @ [(?key, ''2001:db8:85a3::/56'')])"
    by (simp add: example_cacheKey)
  from hit one have b3: "snd (ipKeyGenerator ?ip (SubnetNumber 56) ?one) = ?one" by blast
  have pre: "Map_wf ?full \<and> Map_size ?full \<le> MAX_CACHE_SIZE \<and> list_all collapsing_call ?calls
      \<and> distinct ?calls \<and> list_all (\<lambda>(ip, s). Map_get ?full (cacheKey ip s) = None) ?calls"
    using wf size calls by simp
  let ?K = "map fst ?full @ map (\<lambda>(ip, s). cacheKey ip s) ?calls"
  let ?d = "Map_size ?full + length ?calls - MAX_CACHE_SIZE"
  from full pre more
  have keys: "map fst (run_calls ?calls ?full) = drop ?d ?K"
    and b5: "Map_size (run_calls ?calls ?full) = MAX_CACHE_SIZE"
    and gone: "Map_get (run_calls ?calls ?full) (hd ?K) = None"
    and there: "\<forall>k \<in> set (drop ?d ?K). Map_get (run_calls ?calls ?full) k \<noteq> None"
    by blast+
  have d: "?d = 1" by (simp add: size)
  have K: "?K = map fst ?full @ [?key]" by (simp add: example_cacheKey)
  from keys have b4: "map fst (run_calls ?calls ?full) = drop 1 (map fst ?full @ [?key])"
    by (simp only: d K)
  have M: "MAX_CACHE_SIZE = Suc 9999" by (simp add: MAX_CACHE_SIZE_def)
  have "hd ?K = ''x''" by (simp only: K M filled_cache_Suc list.map list.sel fst_conv append_Cons)
  with gone have b6: "Map_get (run_calls ?calls ?full) ''x'' = None" by (simp only:)
  have "map fst ?full \<noteq> []" by (simp add: filled_cache_def MAX_CACHE_SIZE_def)
  then have "?key \<in> set (drop 1 (map fst ?full @ [?key]))"
    by (cases "map fst ?full") simp_all
  then have "?key \<in> set (drop ?d ?K)" by (simp only: d K)
  with there have b7: "Map_get (run_calls ?calls ?full) ?key \<noteq> None" by blast
  have old: "Map_get ?full ''x'' = Some ''y''"
    using Map_get_filled_cache_present [of 0 MAX_CACHE_SIZE] by (simp add: MAX_CACHE_SIZE_def)
  from fresh have fresh': "Map_get ?full ?key = None" by (simp add: example_cacheKey)
  from wf size cc fresh' b0 b1 b2 b3 b4 b5 old b6 b7 show ?thesis by (intro conjI)
qed

section \<open>Entries are never mutated\<close>

text \<open>
  Claim C6. A call never changes the value of an entry: a key that is in the cache before
  and after a call has the same value. The cache after the call is the cache before it
  without at most one entry at its front, the oldest, and with at most one entry more at
  its end; every other entry stays, in its place.
\<close>

theorem C6_entries_never_mutated:
  assumes "Map_wf c"
  shows "(\<forall>k v v'. Map_get c k = Some v \<and> Map_get (snd (ipKeyGenerator ip s c)) k = Some v'
            \<longrightarrow> v' = v)
         \<and> (\<exists>old kept new. c = old @ kept \<and> snd (ipKeyGenerator ip s c) = kept @ new
               \<and> length old \<le> 1 \<and> length new \<le> 1)"
  using assms
proof (cases rule: ipKeyGenerator_cases [of c ip s])
  case same
  then have "c = [] @ c \<and> snd (ipKeyGenerator ip s c) = c @ []
      \<and> length ([] :: cache) \<le> 1 \<and> length ([] :: cache) \<le> 1" by simp
  then have "\<exists>old kept new. c = old @ kept \<and> snd (ipKeyGenerator ip s c) = kept @ new
      \<and> length old \<le> 1 \<and> length new \<le> 1" by blast
  moreover have "\<forall>k v v'. Map_get c k = Some v \<and> Map_get c k = Some v' \<longrightarrow> v' = v"
    by auto
  ultimately show ?thesis using same by simp
next
  case (inserted key)
  let ?e = "if MAX_CACHE_SIZE \<le> length c then tl c else c"
  let ?old = "if MAX_CACHE_SIZE \<le> length c then take 1 c else []"
  have "c = ?old @ ?e" by (cases c) simp_all
  moreover from inserted(5) have c': "snd (ipKeyGenerator ip s c) = ?e @ [(cacheKey ip s, key)]"
    by simp
  moreover have "length ?old \<le> 1" and "length [(cacheKey ip s, key)] \<le> 1" by simp_all
  ultimately have shape: "\<exists>old kept new. c = old @ kept
      \<and> snd (ipKeyGenerator ip s c) = kept @ new \<and> length old \<le> 1 \<and> length new \<le> 1"
    by blast
  have "v' = v" if before: "Map_get c k = Some v"
    and after: "Map_get (snd (ipKeyGenerator ip s c)) k = Some v'" for k v v'
  proof (cases "Map_get ?e k")
    case None
    with after c' have "k = cacheKey ip s"
      by (auto simp: Map_get_def map_add_def split: if_splits)
    with before inserted(3) show ?thesis by simp
  next
    case (Some w)
    with after c' have "v' = w" by (simp add: Map_get_def)
    moreover from Some assms have "Map_get c k = Some w"
      by (auto simp: Map_get_tl_Some split: if_splits)
    ultimately show ?thesis using before by simp
  qed
  with shape show ?thesis by blast
qed

theorem C6_entries_never_mutated_witness:
  "Map_wf (filled_cache MAX_CACHE_SIZE)
   \<and> Map_get (filled_cache MAX_CACHE_SIZE) ''xx'' = Some ''y''
   \<and> Map_get (snd (ipKeyGenerator ''2001:db8:85a3::8a2e:370:7334'' (SubnetNumber 56)
        (filled_cache MAX_CACHE_SIZE))) ''xx'' = Some ''y''
   \<and> (\<exists>old kept new. filled_cache MAX_CACHE_SIZE = old @ kept
         \<and> snd (ipKeyGenerator ''2001:db8:85a3::8a2e:370:7334'' (SubnetNumber 56)
              (filled_cache MAX_CACHE_SIZE)) = kept @ new
         \<and> length old \<le> 1 \<and> length new \<le> 1)"
proof -
  let ?full = "filled_cache MAX_CACHE_SIZE"
  let ?after = "snd (ipKeyGenerator ''2001:db8:85a3::8a2e:370:7334'' (SubnetNumber 56) ?full)"
  note t = C6_entries_never_mutated [OF Map_wf_filled_cache,
      of MAX_CACHE_SIZE "''2001:db8:85a3::8a2e:370:7334''" "SubnetNumber 56"]
  have wf: "Map_wf ?full" by (rule Map_wf_filled_cache)
  have before: "Map_get ?full ''xx'' = Some ''y''"
    using Map_get_filled_cache_present [of 1 MAX_CACHE_SIZE]
    by (simp add: MAX_CACHE_SIZE_def)
  have "''xx'' \<in> fst ` set ?after"
  proof -
    have "?after = tl ?full
        @ [(''2001:db8:85a3::8a2e:370:7334/56'', ''2001:db8:85a3::/56'')]"
      by (simp add: example_full_call)
    moreover have M: "MAX_CACHE_SIZE = Suc 9999" by (simp add: MAX_CACHE_SIZE_def)
    have "tl ?full = map (\<lambda>i. (replicate (Suc (Suc i)) CHR ''x'', ''y'')) [0..<9999]"
      by (simp only: M filled_cache_Suc list.sel)
    moreover have "(''xx'', ''y'')
        \<in> set (map (\<lambda>i. (replicate (Suc (Suc i)) CHR ''x'', ''y'')) [0..<9999])"
    proof -
      have "(0::nat) \<in> set [0..<9999]" by simp
      then have "(replicate (Suc (Suc 0)) CHR ''x'', ''y'')
          \<in> (\<lambda>i. (replicate (Suc (Suc i)) CHR ''x'', ''y'')) ` set [0..<9999]"
        by (rule imageI)
      then show ?thesis by simp
    qed
    ultimately have "(''xx'', ''y'') \<in> set ?after" by simp
    then show ?thesis by force
  qed
  then obtain v' where after: "Map_get ?after ''xx'' = Some v'"
    using Map_get_None_iff [of ?after "''xx''"] by (cases "Map_get ?after ''xx''") auto
  with t before have "v' = ''y''" by blast
  with after have "Map_get ?after ''xx'' = Some ''y''" by simp
  with wf before t show ?thesis by blast
qed

section \<open>Increments of the counter store\<close>

lemma increment_fresh:
  assumes "windowDurationMs st = Some w" and "live_record st key t = None"
  shows "increment key t st =
           Inr ((1, t + w), st\<lparr>records := (records st)(key \<mapsto> \<lparr>count = 1, resetTime = t + w\<rparr>)\<rparr>)"
  using assms by (simp add: increment_def)

lemma increment_live:
  assumes "windowDurationMs st = Some w" and "live_record st key t = Some r"
  shows "increment key t st =
           Inr ((Suc (count r), resetTime r),
                st\<lparr>records := (records st)(key \<mapsto> r\<lparr>count := Suc (count r)\<rparr>)\<rparr>)"
  using assms by (simp add: increment_def)

text \<open>Increments before the reset time of a record count up from it.\<close>

lemma increments_live:
  assumes "windowDurationMs st = Some w" and "records st key = Some r"
    and "\<forall>t \<in> set ts. t < resetTime r"
  shows "\<exists>st'. increments key ts st =
           Inr (map (\<lambda>i. (count r + Suc i, resetTime r)) [0..<length ts], st')"
  using assms
proof (induction ts arbitrary: st r)
  case Nil
  then show ?case by simp
next
  case (Cons t ts)
  let ?r' = "r\<lparr>count := Suc (count r)\<rparr>"
  let ?st' = "st\<lparr>records := (records st)(key \<mapsto> ?r')\<rparr>"
  from Cons.prems have "live_record st key t = Some r" by (simp add: live_record_def)
  with Cons.prems(1) have step: "increment key t st = Inr ((Suc (count r), resetTime r), ?st')"
    by (rule increment_live)
  have "windowDurationMs ?st' = Some w" using Cons.prems(1) by simp
  moreover have "records ?st' key = Some ?r'" by simp
  moreover have "\<forall>t \<in> set ts. t < resetTime ?r'" using Cons.prems(3) by simp
  ultimately obtain st'' where rest: "increments key ts ?st' =
      Inr (map (\<lambda>i. (count ?r' + Suc i, resetTime ?r')) [0..<length ts], st'')"
    using Cons.IH by blast
  have "map (\<lambda>i. (count r + Suc i, resetTime r)) [0..<length (t # ts)]
      = (Suc (count r), resetTime r)
          # map (\<lambda>i. (count ?r' + Suc i, resetTime ?r')) [0..<length ts]"
    by (simp add: upt_conv_Cons map_Suc_upt [symmetric] del: upt_Suc)
  with step rest show ?case by simp
qed

text \<open>
  Claim C7. In a store that is initialised, \<open>increment\<close> for a key without a live
  record (none, or one that is expired) returns the count 1 and the reset time
  \<open>now + windowDurationMs\<close>. The calls that follow it for the same key, each before
  that reset time, with it make N consecutive calls within one window: they return the
  counts 1, 2, ..., N, all with that same reset time.
\<close>

theorem C7_fixed_window_increment:
  assumes "windowDurationMs st = Some w" and "live_record st key t0 = None"
  shows "(\<exists>st'. increment key t0 st = Inr ((1, t0 + w), st'))
         \<and> ((\<forall>t \<in> set ts. t < t0 + w) \<longrightarrow>
              (\<exists>st'. increments key (t0 # ts) st =
                 Inr (map (\<lambda>i. (Suc i, t0 + w)) [0..<Suc (length ts)], st')))"
proof (intro conjI impI)
  let ?r = "\<lparr>count = 1, resetTime = t0 + w\<rparr>"
  let ?st = "st\<lparr>records := (records st)(key \<mapsto> ?r)\<rparr>"
  have first: "increment key t0 st = Inr ((1, t0 + w), ?st)"
    using assms by (rule increment_fresh)
  then show "\<exists>st'. increment key t0 st = Inr ((1, t0 + w), st')" by blast
  assume "\<forall>t \<in> set ts. t < t0 + w"
  then have "\<forall>t \<in> set ts. t < resetTime ?r" by simp
  moreover have "windowDurationMs ?st = Some w" using assms(1) by simp
  moreover have "records ?st key = Some ?r" by simp
  ultimately obtain st' where rest: "increments key ts ?st =
      Inr (map (\<lambda>i. (count ?r + Suc i, resetTime ?r)) [0..<length ts], st')"
    using increments_live by blast
  have "map (\<lambda>i. (Suc i, t0 + w)) [0..<Suc (length ts)]
      = (1, t0 + w) # map (\<lambda>i. (count ?r + Suc i, resetTime ?r)) [0..<length ts]"
    by (simp add: upt_conv_Cons map_Suc_upt [symmetric] del: upt_Suc)
  with first rest
  have "increments key (t0 # ts) st = Inr (map (\<lambda>i. (Suc i, t0 + w)) [0..<Suc (length ts)], st')"
    by simp
  then show "\<exists>st'. increments key (t0 # ts) st =
      Inr (map (\<lambda>i. (Suc i, t0 + w)) [0..<Suc (length ts)], st')" by blast
qed

theorem C7_fixed_window_increment_witness:
  "(\<exists>st'. increment ''client'' 1000
       (init 60000 \<lparr>windowDurationMs = None,
          records = [''client'' \<mapsto> \<lparr>count = 7, resetTime = 1000\<rparr>]\<rparr>)
       = Inr ((1, 61000), st'))
   \<and> (\<exists>st'. increments ''client'' [1000, 1001, 60999]
       (init 60000 \<lparr>windowDurationMs = None,
          records = [''client'' \<mapsto> \<lparr>count = 7, resetTime = 1000\<rparr>]\<rparr>)
       = Inr ([(1, 61000), (2, 61000), (3, 61000)], st'))"
proof -
  let ?st = "init 60000 \<lparr>windowDurationMs = None,
      records = [''client'' \<mapsto> \<lparr>count = 7, resetTime = 1000\<rparr>]\<rparr>"
  have w: "windowDurationMs ?st = Some 60000" by (simp add: init_def)
  have l: "live_record ?st ''client'' 1000 = None" by (simp add: live_record_def init_def)
  have ts: "\<forall>t \<in> set [1001, 60999 :: int]. t < 1000 + 60000" by simp
  have m: "map (\<lambda>i. (Suc i, 1000 + (60000::int))) [0..<Suc (length [1001, 60999 :: int])]
      = [(1, 61000), (2, 61000), (3, 61000)]" by (simp add: upt_conv_Cons)
  from C7_fixed_window_increment [OF w l, of "[1001, 60999]"] ts
  show ?thesis unfolding m by simp
qed

end
